theory Spec2Isabelle
  imports Complex_Main "HOL-Library.Log_Nat"
begin

section \<open>FlowField (core/FlowField.ts)\<close>

text \<open>
  The typed arrays of the class are lists of naturals: \<open>cost\<close> and \<open>direction\<close> are
  Uint8Array, \<open>integration\<close> is Uint16Array, \<open>queue\<close> is Int32Array (it only ever
  holds cell indices). Cell coordinates are integers, since callers pass coordinates
  that may lie outside the grid. A typed array read out of range yields
  \<open>undefined\<close>, a write out of range is dropped; both are written out where the
  source can reach them.
\<close>

definition FLOW_DIR_NONE :: nat where
  "FLOW_DIR_NONE = 255"

text \<open>The sentinel \<open>INF = 0xffff\<close> of the source.\<close>

definition INF_DIST :: nat where
  "INF_DIST = 65535"

definition N4 :: "(int \<times> int) list" where
  "N4 = [(1, 0), (-1, 0), (0, 1), (0, -1)]"

definition N8 :: "(int \<times> int) list" where
  "N8 = [(1, 0), (1, 1), (0, 1), (-1, 1), (-1, 0), (-1, -1), (0, -1), (1, -1)]"

record FlowField =
  width :: nat
  height :: nat
  cost :: "nat list"
  integration :: "nat list"
  direction :: "nat list"
  targetX :: int
  targetY :: int
  queue :: "nat list"

text \<open>\<open>clear\<close>, and the constructor, which allocates the four arrays and clears.\<close>

definition clear :: "FlowField \<Rightarrow> FlowField" where
  "clear f = f\<lparr>cost := replicate (length (cost f)) 0,
              integration := replicate (length (integration f)) INF_DIST,
              direction := replicate (length (direction f)) FLOW_DIR_NONE\<rparr>"

definition newFlowField :: "nat \<Rightarrow> nat \<Rightarrow> FlowField" where
  "newFlowField w h =
     (let n = w * h in
      clear \<lparr>width = w, height = h, cost = replicate n 0, integration = replicate n 0,
             direction = replicate n 0, targetX = 0, targetY = 0, queue = replicate n 0\<rparr>)"

definition idx :: "FlowField \<Rightarrow> int \<Rightarrow> int \<Rightarrow> int" where
  "idx f x y = y * int (width f) + x"

definition inBounds :: "FlowField \<Rightarrow> int \<Rightarrow> int \<Rightarrow> bool" where
  "inBounds f x y = (x \<ge> 0 \<and> x < int (width f) \<and> y \<ge> 0 \<and> y < int (height f))"

text \<open>
  \<open>this.cost[i] === 255\<close>: out of range the read is \<open>undefined\<close>, which is not
  \<open>255\<close>.
\<close>

definition isWall :: "FlowField \<Rightarrow> int \<Rightarrow> int \<Rightarrow> bool" where
  "isWall f x y =
     (let i = idx f x y in 0 \<le> i \<and> nat i < length (cost f) \<and> cost f ! nat i = 255)"

definition canUseDiagonal :: "FlowField \<Rightarrow> int \<Rightarrow> int \<Rightarrow> int \<Rightarrow> int \<Rightarrow> bool" where
  "canUseDiagonal f x y dx dy =
     (if dx = 0 \<or> dy = 0 then True
      else
        let ax = x + dx; ay = y; bx = x; by = y + dy in
        if \<not> inBounds f ax ay \<or> \<not> inBounds f bx by then False
        else \<not> isWall f ax ay \<and> \<not> isWall f bx by)"

text \<open>\<open>setWall\<close>: a store outside the array is dropped.\<close>

definition setWall :: "FlowField \<Rightarrow> int \<Rightarrow> int \<Rightarrow> bool \<Rightarrow> FlowField" where
  "setWall f x y wall =
     (let i = idx f x y in
      if 0 \<le> i \<and> nat i < length (cost f)
      then f\<lparr>cost := (cost f)[nat i := (if wall then 255 else 0)]\<rparr>
      else f)"

subsection \<open>generate: the flood fill\<close>

text \<open>
  The body of the \<open>for\<close> loop over \<open>N4\<close>, for one offset \<open>d\<close>; the state is the
  integration array, the queue and \<open>tail\<close>. \<open>nextDist < this.integration[ni]\<close> is
  false when the read is out of range, and \<open>q[tail++] = ni\<close> past the end of the queue
  stores nothing (\<open>list_update\<close> does the same) but still advances \<open>tail\<close>.
\<close>

definition relax ::
  "FlowField \<Rightarrow> int \<Rightarrow> int \<Rightarrow> nat \<Rightarrow> int \<times> int \<Rightarrow> nat list \<times> nat list \<times> nat
     \<Rightarrow> nat list \<times> nat list \<times> nat" where
  "relax f cx cy nextDist d = (\<lambda>(integ, q, tail).
     let nx = cx + fst d; ny = cy + snd d in
     if \<not> inBounds f nx ny then (integ, q, tail)
     else
       let ni = nat (ny * int (width f) + nx) in
       if ni < length (cost f) \<and> cost f ! ni = 255 then (integ, q, tail)
       else if ni < length integ \<and> nextDist < integ ! ni
         then (integ[ni := nextDist], q[tail := ni], Suc tail)
         else (integ, q, tail))"

lemma relax_measure:
  assumes "relax f cx cy nd d (integ, q, tail) = (integ', q', tail')"
  shows "sum_list integ' + tail' \<le> sum_list integ + tail \<and> tail \<le> tail'
    \<and> length integ' = length integ \<and> length q' = length q"
proof -
  have upd: "sum_list (xs[i := v]) + 1 \<le> sum_list xs" if "i < length xs" "v < xs ! i"
    for xs :: "nat list" and i v
    using that elem_le_sum_list[of i xs] by (simp add: sum_list_update)
  show ?thesis
    using assms upd[of "nat ((cy + snd d) * int (width f) + (cx + fst d))" integ nd]
    by (auto simp: relax_def Let_def split: if_splits)
qed

lemma fold_relax_measure:
  assumes "fold (relax f cx cy nd) ds (integ, q, tail) = (integ', q', tail')"
  shows "sum_list integ' + tail' \<le> sum_list integ + tail \<and> tail \<le> tail'
    \<and> length integ' = length integ \<and> length q' = length q"
  using assms
proof (induction ds arbitrary: integ q tail)
  case Nil
  then show ?case by simp
next
  case (Cons d ds)
  obtain i1 q1 t1 where s: "relax f cx cy nd d (integ, q, tail) = (i1, q1, t1)"
    by (metis prod_cases3)
  from Cons.prems s have "fold (relax f cx cy nd) ds (i1, q1, t1) = (integ', q', tail')"
    by simp
  from Cons.IH[OF this] relax_measure[OF s] show ?case by linarith
qed

text \<open>
  The \<open>while (head < tail)\<close> loop. \<open>(curDist + 1) & 0xffff\<close> is the remainder modulo
  \<open>65536\<close>. Reading \<open>q[head]\<close> past the end of the queue gives \<open>undefined\<close>: then
  \<open>cx\<close> is \<open>NaN\<close>, every neighbour fails \<open>inBounds\<close> and the iteration changes
  nothing. Reading \<open>this.integration[curIdx]\<close> out of range gives \<open>undefined\<close>, and
  \<open>(undefined + 1) & 0xffff\<close> is \<open>0\<close>.
\<close>

function bfs :: "FlowField \<Rightarrow> nat list \<Rightarrow> nat list \<Rightarrow> nat \<Rightarrow> nat \<Rightarrow> nat list \<times> nat list" where
  "bfs f integ q head tail =
     (if head < tail then
        (if head < length q then
           (let curIdx = q ! head;
                nextDist = (if curIdx < length integ then (integ ! curIdx + 1) mod 65536 else 0);
                cx = int (curIdx mod width f);
                cy = int (curIdx div width f);
                r = fold (relax f cx cy nextDist) N4 (integ, q, tail)
            in bfs f (fst r) (fst (snd r)) (Suc head) (snd (snd r)))
         else bfs f integ q (Suc head) tail)
      else (integ, q))"
  by pat_completeness auto
termination
proof (relation "measure (\<lambda>(f, integ, q, head, tail). sum_list integ + tail - head)", goal_cases)
  case 1
  then show ?case by simp
next
  case (2 f integ q head tail curIdx nextDist cx cy r)
  obtain i1 q1 t1 where r: "r = (i1, q1, t1)" by (metis prod_cases3)
  with 2 have "fold (relax f cx cy nextDist) N4 (integ, q, tail) = (i1, q1, t1)" by simp
  from fold_relax_measure[OF this] 2(1) r show ?case by auto
next
  case (3 f integ q head tail)
  then show ?case by simp
qed

declare bfs.simps [simp del]

subsection \<open>generate: the direction pass\<close>

text \<open>The body of the loop over \<open>N8\<close>, for direction \<open>dir\<close>; the state is \<open>(best, bestDir)\<close>.\<close>

definition pickDir ::
  "FlowField \<Rightarrow> nat list \<Rightarrow> int \<Rightarrow> int \<Rightarrow> nat \<Rightarrow> nat \<times> nat \<Rightarrow> nat \<times> nat" where
  "pickDir f integ x y dir = (\<lambda>(best, bestDir).
     let nx = x + fst (N8 ! dir); ny = y + snd (N8 ! dir) in
     if \<not> inBounds f nx ny then (best, bestDir)
     else if \<not> canUseDiagonal f x y (fst (N8 ! dir)) (snd (N8 ! dir)) then (best, bestDir)
     else
       let ni = nat (ny * int (width f) + nx); nd = integ ! ni in
       if nd < best then (nd, dir) else (best, bestDir))"

text \<open>The body of the loop over the cells, for cell \<open>i\<close>; the state is the direction array.\<close>

definition assignDir :: "FlowField \<Rightarrow> nat list \<Rightarrow> nat \<Rightarrow> nat list \<Rightarrow> nat list" where
  "assignDir f integ i dirs =
     (if cost f ! i = 255 then dirs
      else
        let d = integ ! i in
        if d = INF_DIST \<or> d = 0 then dirs
        else
          let x = int (i mod width f);
              y = int (i div width f);
              r = fold (pickDir f integ x y) [0..<length N8] (d, FLOW_DIR_NONE)
          in dirs[i := snd r])"

definition generate :: "FlowField \<Rightarrow> int \<Rightarrow> int \<Rightarrow> FlowField" where
  "generate f0 tx ty =
     (let f = f0\<lparr>targetX := tx, targetY := ty,
                 integration := replicate (length (integration f0)) INF_DIST,
                 direction := replicate (length (direction f0)) FLOW_DIR_NONE\<rparr>;
          n = width f * height f
      in
      if \<not> inBounds f tx ty then f
      else if isWall f tx ty then f
      else
        let startIdx = nat (idx f tx ty);
            r = bfs f ((integration f)[startIdx := 0]) ((queue f)[0 := startIdx]) 0 1;
            dirs = fold (assignDir f (fst r)) [0..<n] (direction f)
        in f\<lparr>integration := fst r, direction := dirs, queue := snd r\<rparr>)"

text \<open>
  The class invariant the constructor establishes: the four arrays have one entry per
  cell.
\<close>

definition wf_field :: "FlowField \<Rightarrow> bool" where
  "wf_field f =
     (length (cost f) = width f * height f \<and> length (integration f) = width f * height f
      \<and> length (direction f) = width f * height f \<and> length (queue f) = width f * height f)"

section \<open>The canvas controller (ZTideCanvas.tsx)\<close>

text \<open>
  The closure variables of \<open>init\<close> are the fields of a record. The layout
  (\<open>cellPx\<close>, \<open>offsetX\<close>, \<open>offsetY\<close>, computed by \<open>computeLayout\<close> from the
  renderer's size) and the renderer's size are passed to every operation that reads
  them. Numbers that the code only ever changes by whole steps (\<open>gold\<close>, \<open>baseHp\<close>,
  \<open>wave\<close>) are integers; coordinates and times are reals.
\<close>

datatype BrushMode = WALL | ERASE

record Layout =
  cellPx :: real
  offsetX :: real
  offsetY :: real
  rendererW :: real
  rendererH :: real

record Rect =
  rectLeft :: real
  rectTop :: real
  rectWidth :: real
  rectHeight :: real

record Swarm =
  posX :: "real list"
  posY :: "real list"
  velX :: "real list"
  velY :: "real list"
  hp :: "nat list"

record Canvas =
  field :: FlowField
  baseCost :: "nat list option"
  pilotRequestId :: nat
  baseHpMax :: int
  baseHp :: int
  gold :: int
  wave :: nat
  waveActive :: bool
  waveEndsAt :: real
  waveDurationMs :: real
  fireCooldown :: real
  brushMode :: BrushMode
  pilotPresent :: bool
  entityCount :: nat
  entities :: nat
  swarm :: Swarm

text \<open>
  \<open>Math.floor((p - offset) / cellPx)\<close>. With \<open>cellPx = 0\<close> the quotient is infinite or
  \<open>NaN\<close>, which fails every \<open>inBounds\<close> test: that is \<open>None\<close>.
\<close>

definition gridCoord :: "real \<Rightarrow> real \<Rightarrow> real \<Rightarrow> int option" where
  "gridCoord p off cpx = (if cpx = 0 then None else Some \<lfloor>(p - off) / cpx\<rfloor>)"



subsection \<open>rebuildField, spawnEdge, rebuildSwarm\<close>

text \<open>\<open>rebuildField\<close> without its drawing calls.\<close>

definition rebuildField :: "FlowField \<Rightarrow> FlowField" where
  "rebuildField f = generate f (int (width f div 2)) (int (height f div 2))"

text \<open>
  \<open>spawnEdge\<close>: \<open>r1\<close> and \<open>r2\<close> are the two values \<open>Math.random()\<close> returns, in
  \<open>[0, 1)\<close>. The result is the position and the health written at index \<open>i\<close>; the
  velocity written is zero.
\<close>

definition spawnEdge :: "FlowField \<Rightarrow> Layout \<Rightarrow> nat \<Rightarrow> real \<times> real \<Rightarrow> real \<times> real \<times> nat" where
  "spawnEdge f L wv r =
     (let side = \<lfloor>fst r * 4\<rfloor>;
          g = (if side = 0 then (0, \<lfloor>snd r * real (height f)\<rfloor>)
               else if side = 1 then (int (width f) - 1, \<lfloor>snd r * real (height f)\<rfloor>)
               else if side = 2 then (\<lfloor>snd r * real (width f)\<rfloor>, 0)
               else (\<lfloor>snd r * real (width f)\<rfloor>, int (height f) - 1));
          x = offsetX L + (real_of_int (fst g) + 0.5) * cellPx L;
          y = offsetY L + (real_of_int (snd g) + 0.5) * cellPx L;
          enemyBaseHp = 34 + wv * 10
      in (x, y, enemyBaseHp mod 65536))"

text \<open>
  \<open>rebuildSwarm\<close>: a fresh population. \<open>entitiesRef.current || entityCount\<close> falls
  back to the \<open>entityCount\<close> the component was mounted with when the ref holds
  \<open>0\<close>; \<open>rnd i\<close> is the pair of random values drawn for agent \<open>i\<close>.
\<close>

definition rebuildSwarm :: "Canvas \<Rightarrow> Layout \<Rightarrow> (nat \<Rightarrow> real \<times> real) \<Rightarrow> Canvas" where
  "rebuildSwarm s L rnd =
     (let count = (if entities s = 0 then entityCount s else entities s);
          sp = map (\<lambda>i. spawnEdge (field s) L (wave s) (rnd i)) [0..<count]
      in s\<lparr>entities := count,
           swarm := \<lparr>posX = map fst sp, posY = map (\<lambda>a. fst (snd a)) sp,
                      velX = replicate count 0, velY = replicate count 0,
                      hp = map (\<lambda>a. snd (snd a)) sp\<rparr>\<rparr>)"

subsection \<open>Terrain: ensureBaseAndEdgeOpen, applyPilot\<close>

definition ensureBaseAndEdgeOpen :: "FlowField \<Rightarrow> FlowField" where
  "ensureBaseAndEdgeOpen f0 =
     (let tx = int (width f0 div 2);
          ty = int (height f0 div 2);
          f1 = fold (\<lambda>dy f. fold (\<lambda>dx f.
                  let x = tx + dx; y = ty + dy in
                  if \<not> inBounds f x y then f else setWall f x y False) [-1, 0, 1] f)
                [-1, 0, 1] f0;
          f2 = fold (\<lambda>x f. setWall (setWall f (int x) 0 False) (int x) (int (height f) - 1) False)
                [0..<width f1] f1;
          f3 = fold (\<lambda>y f. setWall (setWall f 0 (int y) False) (int (width f) - 1) (int y) False)
                [0..<height f2] f2
      in f3)"

text \<open>
  The three places of \<open>applyPilot\<close> that install a cost array share their last steps:
  open the base and the edges, then regenerate towards the centre.
\<close>

definition openAndGenerate :: "FlowField \<Rightarrow> FlowField" where
  "openAndGenerate f =
     (let f1 = ensureBaseAndEdgeOpen f
      in generate f1 (int (width f1 div 2)) (int (height f1 div 2)))"

definition fillCost :: "FlowField \<Rightarrow> nat \<Rightarrow> FlowField" where
  "fillCost f v = f\<lparr>cost := replicate (length (cost f)) v\<rparr>"

text \<open>
  \<open>applyPilot(p)\<close>: with no pilot the grid is reset at once; with a pilot the fetch is
  started, and its result arrives later as \<open>pilotResolved\<close> or \<open>pilotRejected\<close>,
  carrying the request id it was started with and the \<open>Uint8Array\<close> the provider
  returned. A result whose id is no longer \<open>pilotRequestId\<close> is dropped (as is every
  result after teardown; the model is of the mounted component).
\<close>

definition applyPilot :: "Canvas \<Rightarrow> bool \<Rightarrow> Canvas" where
  "applyPilot s p =
     (let s1 = s\<lparr>pilotRequestId := pilotRequestId s + 1\<rparr> in
      if \<not> p then s1\<lparr>baseCost := None, field := openAndGenerate (fillCost (field s1) 0)\<rparr>
      else s1)"

definition pilotResolved :: "Canvas \<Rightarrow> nat \<Rightarrow> nat list \<Rightarrow> Canvas" where
  "pilotResolved s reqId gridCost =
     (if reqId \<noteq> pilotRequestId s then s
      else
        let f1 = (if length gridCost = length (cost (field s))
                  then (field s)\<lparr>cost := gridCost\<rparr>
                  else fillCost (field s) 0)
        in s\<lparr>baseCost := Some gridCost, field := openAndGenerate f1\<rparr>)"

definition pilotRejected :: "Canvas \<Rightarrow> nat \<Rightarrow> Canvas" where
  "pilotRejected s reqId =
     (if reqId \<noteq> pilotRequestId s then s
      else s\<lparr>baseCost := None, field := openAndGenerate (fillCost (field s) 0)\<rparr>)"

subsection \<open>startWave, setGridSize, setEntityCount, editAtClient\<close>

definition startWave :: "Canvas \<Rightarrow> Layout \<Rightarrow> real \<Rightarrow> (nat \<Rightarrow> real \<times> real) \<Rightarrow> Canvas" where
  "startWave s L now rnd =
     rebuildSwarm (s\<lparr>wave := wave s + 1, waveActive := True, baseHp := baseHpMax s,
                     fireCooldown := 0, waveEndsAt := now + waveDurationMs s\<rparr>) L rnd"

definition setGridSize :: "Canvas \<Rightarrow> Layout \<Rightarrow> real \<Rightarrow> (nat \<Rightarrow> real \<times> real) \<Rightarrow> Canvas" where
  "setGridSize s L newSize rnd =
     (let size = nat (max 24 (min 128 \<lfloor>newSize\<rfloor>));
          s1 = s\<lparr>field := rebuildField (newFlowField size size), baseCost := None\<rparr>;
          s2 = applyPilot s1 (pilotPresent s1)
      in rebuildSwarm s2 L rnd)"

definition setEntityCount :: "Canvas \<Rightarrow> Layout \<Rightarrow> real \<Rightarrow> (nat \<Rightarrow> real \<times> real) \<Rightarrow> Canvas" where
  "setEntityCount s L n rnd =
     rebuildSwarm (s\<lparr>entities := nat (max 0 \<lfloor>n\<rfloor>)\<rparr>) L rnd"

text \<open>The effect on \<open>pilot\<close>: the ref is updated, then \<open>applyPilot\<close> runs.\<close>

definition setPilot :: "Canvas \<Rightarrow> bool \<Rightarrow> Canvas" where
  "setPilot s p = applyPilot (s\<lparr>pilotPresent := p\<rparr>) p"

text \<open>
  The state \<open>init\<close> leaves behind: a fresh field regenerated towards the centre, a
  fresh population, and \<open>applyPilot\<close> on the pilot the component was mounted with.
\<close>

definition initCanvas ::
  "nat \<Rightarrow> nat \<Rightarrow> BrushMode \<Rightarrow> bool \<Rightarrow> Layout \<Rightarrow> (nat \<Rightarrow> real \<times> real) \<Rightarrow> Canvas" where
  "initCanvas gridSize count brush pilot L rnd =
     (let s0 = \<lparr>field = rebuildField (newFlowField gridSize gridSize), baseCost = None,
                pilotRequestId = 0, baseHpMax = 100, baseHp = 100, gold = 0, wave = 0,
                waveActive = False, waveEndsAt = 0, waveDurationMs = 35000, fireCooldown = 0,
                brushMode = brush, pilotPresent = pilot, entityCount = count, entities = 0,
                swarm = \<lparr>posX = [], posY = [], velX = [], velY = [], hp = []\<rparr>\<rparr>
      in applyPilot (rebuildSwarm s0 L rnd) pilot)"

text \<open>
  The cell under the pointer. With a bounding rectangle of width or height zero the
  scale factor is infinite or \<open>NaN\<close>, and so is the coordinate: \<open>None\<close>.
\<close>

definition pointerCell :: "Layout \<Rightarrow> Rect \<Rightarrow> real \<Rightarrow> real \<Rightarrow> int option \<times> int option" where
  "pointerCell L rect clientX clientY =
     (let gx = (if rectWidth rect = 0 then None
                else gridCoord ((clientX - rectLeft rect) * (rendererW L / rectWidth rect))
                       (offsetX L) (cellPx L));
          gy = (if rectHeight rect = 0 then None
                else gridCoord ((clientY - rectTop rect) * (rendererH L / rectHeight rect))
                       (offsetY L) (cellPx L))
      in (gx, gy))"

definition editAtClient :: "Canvas \<Rightarrow> Layout \<Rightarrow> Rect \<Rightarrow> real \<Rightarrow> real \<Rightarrow> Canvas" where
  "editAtClient s L rect clientX clientY =
     (case pointerCell L rect clientX clientY of
        (Some gx, Some gy) \<Rightarrow>
          if \<not> inBounds (field s) gx gy then s
          else
            let isErase = (brushMode s = ERASE) in
            if gx = targetX (field s) \<and> gy = targetY (field s) then s
            else if waveActive s \<and> \<not> isErase \<and> gold s \<le> 0 then s
            else
              let f1 = setWall (field s) gx gy (\<not> isErase);
                  gold1 = (if waveActive s \<and> \<not> isErase then max 0 (gold s - 1) else gold s)
              in s\<lparr>field := generate f1 (targetX f1) (targetY f1), gold := gold1\<rparr>
      | _ \<Rightarrow> s)"

subsection \<open>The start button of ZTideApp.tsx\<close>

text \<open>
  \<open>ZTideApp\<close> holds the last telemetry sample (\<open>perf\<close>) and the wave token. The
  button is disabled while \<open>perf.waveActive\<close>; a click increments the token, and the
  effect on the token calls \<open>startWave\<close> unless the token is \<open>\<le> 0\<close>. The ticker
  publishes a sample at most every 250 ms, and none while paused.
\<close>

record App =
  canvas :: Canvas
  perfWaveActive :: bool
  waveToken :: int

definition clickStartWave :: "App \<Rightarrow> Layout \<Rightarrow> real \<Rightarrow> (nat \<Rightarrow> real \<times> real) \<Rightarrow> App" where
  "clickStartWave a L now rnd =
     (if perfWaveActive a then a
      else
        let tok = waveToken a + 1 in
        if tok \<le> 0 then a\<lparr>waveToken := tok\<rparr>
        else a\<lparr>waveToken := tok, canvas := startWave (canvas a) L now rnd\<rparr>)"

definition onPerfSample :: "App \<Rightarrow> App" where
  "onPerfSample a = a\<lparr>perfWaveActive := waveActive (canvas a)\<rparr>"

subsection \<open>updateSwarm: integration and collision of one agent\<close>















subsection \<open>updateSwarm: the spatial hash and the forces\<close>


















section \<open>The flood fill and the direction pass\<close>

lemma wf_newFlowField: "wf_field (newFlowField w h)"
  by (simp add: wf_field_def newFlowField_def clear_def Let_def)

lemma idx_lt:
  assumes "inBounds f x y"
  shows "nat (y * int (width f) + x) < width f * height f"
proof -
  from assms have x: "0 \<le> x" "x < int (width f)" and y: "0 \<le> y" "y < int (height f)"
    by (auto simp: inBounds_def)
  have "y + 1 \<le> int (height f)" using y by simp
  then have "(y + 1) * int (width f) \<le> int (height f) * int (width f)"
    by (intro mult_right_mono) auto
  then have "y * int (width f) + x < int (height f) * int (width f)"
    using x by (simp add: algebra_simps)
  moreover have "0 \<le> y * int (width f) + x" using x y by simp
  ultimately show ?thesis
    by (simp add: nat_less_iff mult.commute)
qed

lemma decode_idx:
  assumes "inBounds f x y"
  shows "int (nat (y * int (width f) + x) mod width f) = x"
    and "int (nat (y * int (width f) + x) div width f) = y"
proof -
  from assms have x: "0 \<le> x" "x < int (width f)" and y: "0 \<le> y" "y < int (height f)"
    by (auto simp: inBounds_def)
  have nn: "0 \<le> y * int (width f) + x" using x y by simp
  have "int (nat (y * int (width f) + x) mod width f) = (y * int (width f) + x) mod int (width f)"
    using nn by (simp add: zmod_int)
  also have "\<dots> = x" using x by simp
  finally show "int (nat (y * int (width f) + x) mod width f) = x" .
  have "int (nat (y * int (width f) + x) div width f) = (y * int (width f) + x) div int (width f)"
    using nn by (simp add: zdiv_int)
  also have "\<dots> = y" using x by simp
  finally show "int (nat (y * int (width f) + x) div width f) = y" .
qed

lemma cell_inBounds:
  assumes "i < width f * height f"
  shows "inBounds f (int (i mod width f)) (int (i div width f))"
proof -
  have w: "0 < width f" using assms by (cases "width f") auto
  have "i div width f < height f"
    using assms w by (simp add: less_mult_imp_div_less mult.commute)
  then show ?thesis using w by (simp add: inBounds_def)
qed

lemma encode_cell: "nat (int (i div width f) * int (width f) + int (i mod width f)) = i"
proof -
  have "int (i div width f) * int (width f) + int (i mod width f) = int i"
    by (metis div_mult_mod_eq of_nat_add of_nat_mult)
  then show ?thesis by simp
qed

definition nbrIn :: "FlowField \<Rightarrow> nat \<Rightarrow> int \<times> int \<Rightarrow> bool" where
  "nbrIn f i d = inBounds f (int (i mod width f) + fst d) (int (i div width f) + snd d)"

definition nbrIdx :: "FlowField \<Rightarrow> nat \<Rightarrow> int \<times> int \<Rightarrow> nat" where
  "nbrIdx f i d =
     nat ((int (i div width f) + snd d) * int (width f) + (int (i mod width f) + fst d))"

definition descends :: "FlowField \<Rightarrow> nat list \<Rightarrow> nat \<Rightarrow> bool" where
  "descends f integ i = (\<exists>d \<in> set N4. nbrIn f i d \<and> integ ! nbrIdx f i d < integ ! i)"

definition flood_inv :: "FlowField \<Rightarrow> nat \<Rightarrow> nat list \<Rightarrow> bool" where
  "flood_inv f t integ =
     (length integ = width f * height f \<and> t < length integ \<and> integ ! t = 0 \<and>
      (\<forall>i < length integ.
         integ ! i \<le> INF_DIST \<and> (cost f ! i = 255 \<longrightarrow> integ ! i = INF_DIST) \<and>
         (integ ! i = 0 \<longrightarrow> i = t) \<and>
         (0 < integ ! i \<and> integ ! i < INF_DIST \<longrightarrow> descends f integ i)))"

definition queue_inv :: "nat list \<Rightarrow> nat \<Rightarrow> nat list \<Rightarrow> bool" where
  "queue_inv q tail integ =
     (\<forall>k. k < tail \<and> k < length q \<longrightarrow> q ! k < length integ \<and> integ ! (q ! k) < INF_DIST)"

lemma nbrIdx_lt: "nbrIn f i d \<Longrightarrow> nbrIdx f i d < width f * height f"
  unfolding nbrIn_def nbrIdx_def by (rule idx_lt)

lemma descends_mono:
  assumes "descends f integ i" and len: "length integ = width f * height f"
    and "length integ' = length integ"
    and le: "\<And>j. j < length integ \<Longrightarrow> integ' ! j \<le> integ ! j"
    and same: "integ' ! i = integ ! i"
  shows "descends f integ' i"
proof -
  from assms(1) obtain d where d: "d \<in> set N4" "nbrIn f i d" "integ ! nbrIdx f i d < integ ! i"
    by (auto simp: descends_def)
  from nbrIdx_lt[OF d(2)] len le have "integ' ! nbrIdx f i d \<le> integ ! nbrIdx f i d" by simp
  with d same show ?thesis by (auto simp: descends_def intro!: bexI[of _ d])
qed

lemma N4_neg: "d \<in> set N4 \<Longrightarrow> (- fst d, - snd d) \<in> set N4"
  by (auto simp: N4_def)

lemma relax_inv:
  assumes inv: "flood_inv f t integ" and qi: "queue_inv q tail integ"
    and cl: "length (cost f) = width f * height f"
    and cur: "cur < width f * height f"
    and cx: "cx = int (cur mod width f)" and cy: "cy = int (cur div width f)"
    and lt: "integ ! cur < nd" and d: "d \<in> set N4"
    and r: "relax f cx cy nd d (integ, q, tail) = (integ', q', tail')"
  shows "flood_inv f t integ' \<and> queue_inv q' tail' integ' \<and> integ' ! cur < nd"
proof (cases "(integ', q', tail') = (integ, q, tail)")
  case True
  with inv qi lt show ?thesis by simp
next
  case False
  define ni where "ni = nat ((cy + snd d) * int (width f) + (cx + fst d))"
  from False r have ib: "inBounds f (cx + fst d) (cy + snd d)"
    and nowall: "\<not> (ni < length (cost f) \<and> cost f ! ni = 255)"
    and w: "ni < length integ" "nd < integ ! ni"
    and res: "integ' = integ[ni := nd]" "q' = q[tail := ni]" "tail' = Suc tail"
    by (auto simp: relax_def Let_def ni_def split: if_splits)
  from inv have len: "length integ = width f * height f" and t: "t < length integ" "integ ! t = 0"
    and all: "\<And>i. i < length integ \<Longrightarrow> integ ! i \<le> INF_DIST \<and> (cost f ! i = 255 \<longrightarrow> integ ! i = INF_DIST) \<and>
         (integ ! i = 0 \<longrightarrow> i = t) \<and> (0 < integ ! i \<and> integ ! i < INF_DIST \<longrightarrow> descends f integ i)"
    by (auto simp: flood_inv_def)
  have nit: "ni \<noteq> t" using w t by auto
  have nicur: "ni \<noteq> cur" using w lt by auto
  have ndle: "nd < INF_DIST" using all[OF w(1)] w(2) by simp
  have costni: "cost f ! ni \<noteq> 255"
    using nowall w(1) len cl by auto
  have le: "\<And>j. j < length integ \<Longrightarrow> integ' ! j \<le> integ ! j"
    using w res by (auto simp: nth_list_update)
  have len': "length integ' = length integ" using res by simp
  have dec: "int (ni mod width f) = cx + fst d" "int (ni div width f) = cy + snd d"
    unfolding ni_def using decode_idx[OF ib] by auto
  have curcell: "inBounds f cx cy" unfolding cx cy using cell_inBounds[OF cur] .
  have desc_ni: "descends f integ' ni"
  proof -
    let ?d = "(- fst d, - snd d)"
    have 1: "?d \<in> set N4" using N4_neg[OF d] .
    have 2: "nbrIn f ni ?d" using curcell by (simp add: nbrIn_def dec)
    have 3: "nbrIdx f ni ?d = cur"
      by (simp add: nbrIdx_def dec) (simp add: cx cy encode_cell)
    have "integ' ! cur < integ' ! ni"
      using res w nicur lt by (simp add: nth_list_update)
    with 1 2 3 show ?thesis by (auto simp: descends_def intro!: bexI[of _ ?d])
  qed
  have fi: "flood_inv f t integ'"
    unfolding flood_inv_def
  proof (intro conjI allI impI)
    show "length integ' = width f * height f" using len len' by simp
    show "t < length integ'" using t len' by simp
    show "integ' ! t = 0" using res nit t by simp
  next
    fix i assume i: "i < length integ'"
    then have i0: "i < length integ" using len' by simp
    show "integ' ! i \<le> INF_DIST"
      using le[OF i0] all[OF i0] by linarith
    { assume "cost f ! i = 255"
      then show "integ' ! i = INF_DIST"
        using all[OF i0] costni res i0 by (cases "i = ni") auto }
    { assume "integ' ! i = 0"
      then show "i = t"
        using all[OF i0] res i0 lt by (cases "i = ni") auto }
    { assume a: "0 < integ' ! i \<and> integ' ! i < INF_DIST"
      show "descends f integ' i"
      proof (cases "i = ni")
        case True
        then show ?thesis using desc_ni by simp
      next
        case False
        then have same: "integ' ! i = integ ! i" using res by simp
        with a all[OF i0] have "descends f integ i" by simp
        from descends_mono[OF this len len' le same] show ?thesis by simp
      qed }
  qed
  have qi': "queue_inv q' tail' integ'"
    unfolding queue_inv_def
  proof (intro allI impI)
    fix k assume k: "k < tail' \<and> k < length q'"
    show "q' ! k < length integ' \<and> integ' ! (q' ! k) < INF_DIST"
    proof (cases "k = tail")
      case True
      then show ?thesis using k res w ndle by simp
    next
      case False
      with k res have k0: "k < tail \<and> k < length q" and qk: "q' ! k = q ! k" by auto
      from qi k0 have "q ! k < length integ \<and> integ ! (q ! k) < INF_DIST"
        by (auto simp: queue_inv_def)
      with le[of "q ! k"] qk len' show ?thesis by auto
    qed
  qed
  have "integ' ! cur < nd" using res nicur lt by simp
  with fi qi' show ?thesis by simp
qed

lemma fold_relax_inv:
  assumes "flood_inv f t integ" and "queue_inv q tail integ"
    and cl: "length (cost f) = width f * height f"
    and cur: "cur < width f * height f"
    and cx: "cx = int (cur mod width f)" and cy: "cy = int (cur div width f)"
    and "integ ! cur < nd" and "set ds \<subseteq> set N4"
    and "fold (relax f cx cy nd) ds (integ, q, tail) = (integ', q', tail')"
  shows "flood_inv f t integ' \<and> queue_inv q' tail' integ'"
  using assms(1,2,7,8,9)
proof (induction ds arbitrary: integ q tail)
  case Nil
  then show ?case by simp
next
  case (Cons d ds)
  obtain i1 q1 t1 where s: "relax f cx cy nd d (integ, q, tail) = (i1, q1, t1)"
    by (metis prod_cases3)
  from Cons.prems have d: "d \<in> set N4" and ds: "set ds \<subseteq> set N4" by auto
  from relax_inv[OF Cons.prems(1,2) cl cur cx cy Cons.prems(3) d s]
  have 1: "flood_inv f t i1" "queue_inv q1 t1 i1" "i1 ! cur < nd" by auto
  from Cons.prems(5) s have "fold (relax f cx cy nd) ds (i1, q1, t1) = (integ', q', tail')" by simp
  from Cons.IH[OF 1 ds this] show ?case .
qed

lemma bfs_inv:
  assumes "flood_inv f t integ" and "queue_inv q tail integ"
    and "length (cost f) = width f * height f"
  shows "flood_inv f t (fst (bfs f integ q head tail))"
  using assms
proof (induction f integ q head tail rule: bfs.induct)
  case (1 f integ q head tail)
  show ?case
  proof (cases "head < tail")
    case False
    then show ?thesis using "1.prems" bfs.simps[of f integ q head tail] by simp
  next
    case ht: True
    show ?thesis
    proof (cases "head < length q")
      case False
      with ht "1.IH"(2) "1.prems" bfs.simps[of f integ q head tail] show ?thesis by simp
    next
      case hq: True
      define curIdx where "curIdx = q ! head"
      define nextDist where "nextDist = (if curIdx < length integ then (integ ! curIdx + 1) mod 65536 else 0)"
      define cx where "cx = int (curIdx mod width f)"
      define cy where "cy = int (curIdx div width f)"
      define r where "r = fold (relax f cx cy nextDist) N4 (integ, q, tail)"
      from "1.prems"(2) ht hq have c: "curIdx < length integ" "integ ! curIdx < INF_DIST"
        by (auto simp: queue_inv_def curIdx_def)
      then have nd: "nextDist = integ ! curIdx + 1"
        by (simp add: nextDist_def INF_DIST_def)
      from "1.prems"(1) c have cur: "curIdx < width f * height f" by (simp add: flood_inv_def)
      have r': "fold (relax f cx cy nextDist) N4 (integ, q, tail) = (fst r, fst (snd r), snd (snd r))"
        by (simp add: r_def)
      have "integ ! curIdx < nextDist" using nd by simp
      from fold_relax_inv[OF "1.prems"(1,2,3) cur cx_def cy_def this subset_refl r']
      have inv': "flood_inv f t (fst r)" "queue_inv (fst (snd r)) (snd (snd r)) (fst r)" by auto
      have "flood_inv f t (fst (bfs f (fst r) (fst (snd r)) (Suc head) (snd (snd r))))"
        using "1.IH"(1)[OF ht hq curIdx_def nextDist_def cx_def cy_def r_def inv' "1.prems"(3)] .
      moreover have "bfs f integ q head tail = bfs f (fst r) (fst (snd r)) (Suc head) (snd (snd r))"
        using ht hq bfs.simps[of f integ q head tail]
        by (simp add: Let_def curIdx_def nextDist_def cx_def cy_def r_def)
      ultimately show ?thesis by simp
    qed
  qed
qed

text \<open>
  One step along a decoded direction, in the spec's words: from cell \<open>i\<close> to the
  neighbour at offset \<open>N8[direction[i]]\<close> (\<open>DIR_TO_VEC[dir]\<close> is the unit vector of
  the same offset); a cell whose direction is \<open>FLOW_DIR_NONE\<close> stays where it is.
\<close>

definition followDir :: "FlowField \<Rightarrow> nat \<Rightarrow> nat" where
  "followDir g i =
     (let d = direction g ! i in
      if d = FLOW_DIR_NONE \<or> \<not> d < length N8 then i else nbrIdx g i (N8 ! d))"

definition cornersOpen :: "FlowField \<Rightarrow> int \<Rightarrow> int \<Rightarrow> int \<Rightarrow> int \<Rightarrow> bool" where
  "cornersOpen f x y dx dy =
     (inBounds f (x + dx) y \<and> inBounds f x (y + dy) \<and> \<not> isWall f (x + dx) y \<and> \<not> isWall f x (y + dy))"

definition dirOk :: "FlowField \<Rightarrow> nat list \<Rightarrow> int \<Rightarrow> int \<Rightarrow> nat \<Rightarrow> bool" where
  "dirOk f integ x y dir =
     (inBounds f (x + fst (N8 ! dir)) (y + snd (N8 ! dir)) \<and>
      canUseDiagonal f x y (fst (N8 ! dir)) (snd (N8 ! dir)))"

definition dirVal :: "FlowField \<Rightarrow> nat list \<Rightarrow> int \<Rightarrow> int \<Rightarrow> nat \<Rightarrow> nat" where
  "dirVal f integ x y dir =
     integ ! nat ((y + snd (N8 ! dir)) * int (width f) + (x + fst (N8 ! dir)))"

lemma pickDir_cases:
  "pickDir f integ x y dir (b, k) =
     (if dirOk f integ x y dir \<and> dirVal f integ x y dir < b then (dirVal f integ x y dir, dir) else (b, k))"
  by (simp add: pickDir_def dirOk_def dirVal_def Let_def)

lemma fold_pickDir:
  assumes "fold (pickDir f integ x y) ds (b0, k0) = (best, bestDir)"
  shows "((best, bestDir) = (b0, k0) \<or>
          (bestDir \<in> set ds \<and> dirOk f integ x y bestDir \<and> dirVal f integ x y bestDir = best \<and> best < b0))
         \<and> (\<forall>dir \<in> set ds. dirOk f integ x y dir \<longrightarrow> best \<le> dirVal f integ x y dir)"
  using assms
proof (induction ds arbitrary: b0 k0)
  case Nil
  then show ?case by simp
next
  case (Cons d ds)
  obtain b1 k1 where s: "pickDir f integ x y d (b0, k0) = (b1, k1)" by fastforce
  with Cons.prems have r: "fold (pickDir f integ x y) ds (b1, k1) = (best, bestDir)" by simp
  note ih = Cons.IH[OF r]
  have s': "(b1, k1) = (b0, k0) \<and> \<not> (dirOk f integ x y d \<and> dirVal f integ x y d < b0)
      \<or> (b1 = dirVal f integ x y d \<and> k1 = d \<and> dirOk f integ x y d \<and> b1 < b0)"
    using s by (auto simp: pickDir_cases split: if_splits)
  have le: "best \<le> b1" using ih by auto
  show ?case
  proof (intro conjI ballI impI)
    show "(best, bestDir) = (b0, k0) \<or>
      (bestDir \<in> set (d # ds) \<and> dirOk f integ x y bestDir \<and> dirVal f integ x y bestDir = best \<and> best < b0)"
      using ih s' by auto
  next
    fix dir assume "dir \<in> set (d # ds)" "dirOk f integ x y dir"
    then show "best \<le> dirVal f integ x y dir"
      using ih s' le by (cases "dir = d") auto
  qed
qed

lemma assignDir_length: "length (assignDir f integ i dirs) = length dirs"
  by (simp add: assignDir_def Let_def)

lemma assignDir_other: "j \<noteq> i \<Longrightarrow> assignDir f integ i dirs ! j = dirs ! j"
  by (simp add: assignDir_def Let_def)

lemma fold_assignDir_length: "length (fold (assignDir f integ) is dirs) = length dirs"
  by (induction "is" arbitrary: dirs) (simp_all add: assignDir_length)

lemma fold_assignDir_nth:
  assumes "i < length dirs"
  shows "fold (assignDir f integ) [0..<n] dirs ! i =
     (if i < n then assignDir f integ i dirs ! i else dirs ! i)"
proof (induction n)
  case 0
  then show ?case by simp
next
  case (Suc n)
  let ?ds = "fold (assignDir f integ) [0..<n] dirs"
  have l: "length ?ds = length dirs" by (rule fold_assignDir_length)
  show ?case
  proof (cases "i = n")
    case True
    have a: "?ds ! n = dirs ! n" using Suc True by simp
    have "assignDir f integ n ?ds ! n = assignDir f integ n dirs ! n"
      using assms True l by (simp add: assignDir_def Let_def a)
    then show ?thesis using True by simp
  next
    case False
    then show ?thesis using Suc by (simp add: assignDir_other)
  qed
qed

text \<open>What generate returns, with the record updates unfolded.\<close>

lemma generate_grid [simp]:
  "width (generate f tx ty) = width f" "height (generate f tx ty) = height f"
  "cost (generate f tx ty) = cost f"
  "targetX (generate f tx ty) = tx" "targetY (generate f tx ty) = ty"
  by (simp_all add: generate_def Let_def)

lemma grid_cong:
  assumes "width g = width f" "height g = height f" "cost g = cost f"
  shows "inBounds g = inBounds f" "isWall g = isWall f" "canUseDiagonal g = canUseDiagonal f"
    "idx g = idx f" "nbrIn g = nbrIn f" "nbrIdx g = nbrIdx f" "flood_inv g = flood_inv f"
    "dirOk g = dirOk f" "dirVal g = dirVal f" "cornersOpen g = cornersOpen f"
proof -
  show ib: "inBounds g = inBounds f" using assms by (intro ext) (simp add: inBounds_def)
  show ix: "idx g = idx f" using assms by (intro ext) (simp add: idx_def)
  show iw: "isWall g = isWall f" using assms ix by (intro ext) (simp add: isWall_def)
  show cd: "canUseDiagonal g = canUseDiagonal f" using ib iw by (intro ext) (simp add: canUseDiagonal_def)
  show ni: "nbrIn g = nbrIn f" using assms ib by (intro ext) (simp add: nbrIn_def)
  show nx: "nbrIdx g = nbrIdx f" using assms by (intro ext) (simp add: nbrIdx_def)
  have ds: "descends g = descends f" using ni nx by (intro ext) (simp add: descends_def)
  show "flood_inv g = flood_inv f" using assms ds by (intro ext) (simp add: flood_inv_def)
  show "dirOk g = dirOk f" using ib cd by (intro ext) (simp add: dirOk_def)
  show "dirVal g = dirVal f" using assms by (intro ext) (simp add: dirVal_def)
  show "cornersOpen g = cornersOpen f" using ib iw by (intro ext) (simp add: cornersOpen_def)
qed

text \<open>The field on which generate runs its two passes.\<close>

definition cleared :: "FlowField \<Rightarrow> int \<Rightarrow> int \<Rightarrow> FlowField" where
  "cleared f0 tx ty = f0\<lparr>targetX := tx, targetY := ty,
     integration := replicate (length (integration f0)) INF_DIST,
     direction := replicate (length (direction f0)) FLOW_DIR_NONE\<rparr>"

lemma generate_invalid:
  assumes "\<not> inBounds f tx ty \<or> isWall f tx ty"
  shows "generate f tx ty = cleared f tx ty"
proof -
  have "inBounds (cleared f tx ty) = inBounds f" "isWall (cleared f tx ty) = isWall f"
    by (rule grid_cong; simp add: cleared_def)+
  with assms show ?thesis
    by (auto simp: generate_def cleared_def[symmetric] Let_def)
qed

lemma generate_valid:
  assumes "inBounds f tx ty" "\<not> isWall f tx ty"
  shows "integration (generate f tx ty) =
      fst (bfs (cleared f tx ty) ((replicate (length (integration f)) INF_DIST)[nat (idx f tx ty) := 0])
         ((queue f)[0 := nat (idx f tx ty)]) 0 1)"
    and "direction (generate f tx ty) =
      fold (assignDir (cleared f tx ty) (integration (generate f tx ty))) [0..<width f * height f]
        (replicate (length (direction f)) FLOW_DIR_NONE)"
proof -
  have c: "inBounds (cleared f tx ty) = inBounds f" "isWall (cleared f tx ty) = isWall f"
    "idx (cleared f tx ty) = idx f"
    by (rule grid_cong; simp add: cleared_def)+
  have g: "generate f tx ty = (let f' = cleared f tx ty; n = width f' * height f' in
      let startIdx = nat (idx f' tx ty);
            r = bfs f' ((integration f')[startIdx := 0]) ((queue f')[0 := startIdx]) 0 1;
            dirs = fold (assignDir f' (fst r)) [0..<n] (direction f')
        in f'\<lparr>integration := fst r, direction := dirs, queue := snd r\<rparr>)"
    using assms c by (simp add: generate_def cleared_def[symmetric] Let_def)
  show "integration (generate f tx ty) =
      fst (bfs (cleared f tx ty) ((replicate (length (integration f)) INF_DIST)[nat (idx f tx ty) := 0])
         ((queue f)[0 := nat (idx f tx ty)]) 0 1)"
    unfolding g by (simp add: Let_def c) (simp add: cleared_def)
  then show "direction (generate f tx ty) =
      fold (assignDir (cleared f tx ty) (integration (generate f tx ty))) [0..<width f * height f]
        (replicate (length (direction f)) FLOW_DIR_NONE)"
    unfolding g by (simp add: Let_def c) (simp add: cleared_def)
qed

lemma pickDir_cong:
  assumes "width g = width f" "height g = height f" "cost g = cost f"
  shows "pickDir g = pickDir f"
  using grid_cong(8,9)[OF assms] by (intro ext) (auto simp: pickDir_cases)

lemma cleared_grid [simp]:
  "width (cleared f tx ty) = width f" "height (cleared f tx ty) = height f"
  "cost (cleared f tx ty) = cost f"
  by (simp_all add: cleared_def)

lemma generate_flood:
  assumes wf: "wf_field f" and ib: "inBounds f tx ty" and nw: "\<not> isWall f tx ty"
  shows "flood_inv f (nat (idx f tx ty)) (integration (generate f tx ty))"
proof -
  let ?n = "width f * height f"
  let ?t = "nat (idx f tx ty)"
  let ?f = "cleared f tx ty"
  let ?i0 = "(replicate (length (integration f)) INF_DIST)[?t := 0]"
  let ?q0 = "(queue f)[0 := ?t]"
  from wf have len: "length (cost f) = ?n" "length (integration f) = ?n" "length (queue f) = ?n"
    by (auto simp: wf_field_def)
  have t: "?t < ?n" using idx_lt[OF ib] by (simp add: idx_def)
  have tpos: "0 \<le> idx f tx ty" using ib by (simp add: idx_def inBounds_def)
  have ct: "cost f ! ?t \<noteq> 255" using nw t len tpos by (auto simp: isWall_def Let_def)
  have fc: "flood_inv ?f = flood_inv f" by (rule grid_cong) simp_all
  have "flood_inv f ?t ?i0"
    unfolding flood_inv_def using t len ct
    by (auto simp: nth_list_update INF_DIST_def)
  then have 1: "flood_inv ?f ?t ?i0" by (simp add: fc)
  have 2: "queue_inv ?q0 1 ?i0"
    using t len by (auto simp: queue_inv_def INF_DIST_def)
  have 3: "length (cost ?f) = width ?f * height ?f" using len by simp
  from bfs_inv[OF 1 2 3, of 0] show ?thesis
    by (simp add: generate_valid(1)[OF ib nw] fc)
qed

lemma generate_direction:
  assumes wf: "wf_field f" and ib: "inBounds f tx ty" and nw: "\<not> isWall f tx ty"
    and i: "i < width f * height f"
  shows "direction (generate f tx ty) ! i =
     (let integ = integration (generate f tx ty) in
      if cost f ! i = 255 \<or> integ ! i = INF_DIST \<or> integ ! i = 0 then FLOW_DIR_NONE
      else snd (fold (pickDir f integ (int (i mod width f)) (int (i div width f))) [0..<length N8]
                  (integ ! i, FLOW_DIR_NONE)))"
proof -
  from wf have len: "length (direction f) = width f * height f" by (simp add: wf_field_def)
  have pc: "pickDir (cleared f tx ty) = pickDir f" by (rule pickDir_cong) simp_all
  show ?thesis
    unfolding generate_valid(2)[OF ib nw]
    using i len by (simp add: fold_assignDir_nth assignDir_def Let_def pc)
qed

lemma generate_direction_invalid:
  assumes wf: "wf_field f" and bad: "\<not> inBounds f tx ty \<or> isWall f tx ty"
    and i: "i < width f * height f"
  shows "direction (generate f tx ty) ! i = FLOW_DIR_NONE"
    and "integration (generate f tx ty) ! i = INF_DIST"
  using wf i by (simp_all add: generate_invalid[OF bad] cleared_def wf_field_def)

lemma N4_in_N8:
  assumes "d \<in> set N4"
  shows "\<exists>dir < length N8. N8 ! dir = d \<and> (fst d = 0 \<or> snd d = 0)"
proof -
  from assms consider "d = (1, 0)" | "d = (-1, 0)" | "d = (0, 1)" | "d = (0, -1)"
    by (auto simp: N4_def)
  then show ?thesis
  proof cases
    case 1 then show ?thesis by (intro exI[of _ 0]) (simp add: N8_def)
  next
    case 2 then show ?thesis by (intro exI[of _ 4]) (simp add: N8_def)
  next
    case 3 then show ?thesis by (intro exI[of _ 2]) (simp add: N8_def)
  next
    case 4 then show ?thesis by (intro exI[of _ 6]) (simp add: N8_def)
  qed
qed

text \<open>The scan over the eight neighbours of a cell that has a smaller cardinal neighbour.\<close>

lemma scan_finds:
  assumes desc: "descends f integ i"
    and r: "fold (pickDir f integ (int (i mod width f)) (int (i div width f))) [0..<length N8]
              (integ ! i, FLOW_DIR_NONE) = (best, bestDir)"
  shows "bestDir < length N8 \<and> nbrIn f i (N8 ! bestDir) \<and>
     canUseDiagonal f (int (i mod width f)) (int (i div width f)) (fst (N8 ! bestDir)) (snd (N8 ! bestDir)) \<and>
     integ ! nbrIdx f i (N8 ! bestDir) = best \<and> best < integ ! i"
proof -
  let ?x = "int (i mod width f)" and ?y = "int (i div width f)"
  from desc obtain d where d: "d \<in> set N4" "nbrIn f i d" "integ ! nbrIdx f i d < integ ! i"
    by (auto simp: descends_def)
  from N4_in_N8[OF d(1)] obtain dir where dir: "dir < length N8" "N8 ! dir = d" "fst d = 0 \<or> snd d = 0"
    by auto
  have ok: "dirOk f integ ?x ?y dir"
    using d(2) dir by (auto simp: dirOk_def nbrIn_def canUseDiagonal_def)
  have val: "dirVal f integ ?x ?y dir = integ ! nbrIdx f i d"
    using dir by (simp add: dirVal_def nbrIdx_def)
  note fp = fold_pickDir[OF r]
  from fp ok dir(1) have "best \<le> dirVal f integ ?x ?y dir" by auto
  with val d(3) have "best < integ ! i" by simp
  with fp have "bestDir \<in> set [0..<length N8]" "dirOk f integ ?x ?y bestDir"
    "dirVal f integ ?x ?y bestDir = best" by auto
  then show ?thesis using \<open>best < integ ! i\<close>
    by (auto simp: dirOk_def nbrIn_def dirVal_def nbrIdx_def)
qed

text \<open>A chosen direction passed both tests of the scan.\<close>

lemma scan_chosen:
  assumes r: "fold (pickDir f integ x y) ds (b0, FLOW_DIR_NONE) = (best, bestDir)"
    and "bestDir \<noteq> FLOW_DIR_NONE"
  shows "dirOk f integ x y bestDir \<and> bestDir \<in> set ds"
  using fold_pickDir[OF r] assms(2) by auto

lemma diagonal_corners:
  assumes "dirOk f integ x y dir" "dir \<in> {1, 3, 5, 7}"
  shows "cornersOpen f x y (fst (N8 ! dir)) (snd (N8 ! dir))"
proof -
  from assms(2) have "fst (N8 ! dir) \<noteq> 0 \<and> snd (N8 ! dir) \<noteq> 0"
    by (auto simp: N8_def)
  with assms(1) show ?thesis
    by (auto simp: dirOk_def canUseDiagonal_def cornersOpen_def Let_def split: if_splits)
qed

lemma generate_step:
  assumes wf: "wf_field f" and ib: "inBounds f tx ty" and nw: "\<not> isWall f tx ty"
    and i: "i < width f * height f" and c: "cost f ! i \<noteq> 255"
    and fin: "integration (generate f tx ty) ! i \<noteq> INF_DIST"
    and nz: "integration (generate f tx ty) ! i \<noteq> 0"
  shows "direction (generate f tx ty) ! i < length N8"
    and "nbrIn f i (N8 ! (direction (generate f tx ty) ! i))"
    and "canUseDiagonal f (int (i mod width f)) (int (i div width f))
           (fst (N8 ! (direction (generate f tx ty) ! i))) (snd (N8 ! (direction (generate f tx ty) ! i)))"
    and "integration (generate f tx ty) ! nbrIdx f i (N8 ! (direction (generate f tx ty) ! i))
           < integration (generate f tx ty) ! i"
proof -
  let ?g = "generate f tx ty"
  let ?integ = "integration ?g"
  note inv = generate_flood[OF wf ib nw]
  then have len: "length ?integ = width f * height f" by (simp add: flood_inv_def)
  from inv i len have "?integ ! i \<le> INF_DIST"
    and imp: "0 < ?integ ! i \<and> ?integ ! i < INF_DIST \<longrightarrow> descends f ?integ i"
    unfolding flood_inv_def by simp_all
  with fin nz have "0 < ?integ ! i \<and> ?integ ! i < INF_DIST" by simp
  with imp have desc: "descends f ?integ i" by simp
  obtain best bestDir where r: "fold (pickDir f ?integ (int (i mod width f)) (int (i div width f)))
      [0..<length N8] (?integ ! i, FLOW_DIR_NONE) = (best, bestDir)" by fastforce
  have d: "direction ?g ! i = bestDir"
    using generate_direction[OF wf ib nw i] c fin nz r by (simp add: Let_def)
  note sf = scan_finds[OF desc r]
  show "direction ?g ! i < length N8" using sf d by simp
  show "nbrIn f i (N8 ! (direction ?g ! i))" using sf d by simp
  show "canUseDiagonal f (int (i mod width f)) (int (i div width f))
           (fst (N8 ! (direction ?g ! i))) (snd (N8 ! (direction ?g ! i)))" using sf d by simp
  show "?integ ! nbrIdx f i (N8 ! (direction ?g ! i)) < ?integ ! i" using sf d by simp
qed

lemma followDir_generate:
  assumes wf: "wf_field f" and ib: "inBounds f tx ty" and nw: "\<not> isWall f tx ty"
    and i: "i < width f * height f" and c: "cost f ! i \<noteq> 255"
    and fin: "integration (generate f tx ty) ! i \<noteq> INF_DIST"
    and nz: "integration (generate f tx ty) ! i \<noteq> 0"
  shows "followDir (generate f tx ty) i = nbrIdx f i (N8 ! (direction (generate f tx ty) ! i))"
    and "followDir (generate f tx ty) i < width f * height f"
    and "cost f ! followDir (generate f tx ty) i \<noteq> 255"
    and "integration (generate f tx ty) ! followDir (generate f tx ty) i
           < integration (generate f tx ty) ! i"
proof -
  let ?g = "generate f tx ty"
  note st = generate_step[OF assms]
  have nx: "nbrIdx ?g = nbrIdx f" by (rule grid_cong) simp_all
  have "direction ?g ! i \<noteq> FLOW_DIR_NONE" using st(1) by (simp add: N8_def FLOW_DIR_NONE_def)
  then show fd: "followDir ?g i = nbrIdx f i (N8 ! (direction ?g ! i))"
    using st(1) by (simp add: followDir_def Let_def nx)
  show lt: "followDir ?g i < width f * height f"
    unfolding fd using nbrIdx_lt[OF st(2)] .
  show dec: "integration ?g ! followDir ?g i < integration ?g ! i"
    unfolding fd using st(4) .
  note inv = generate_flood[OF wf ib nw]
  from inv lt have "integration ?g ! i \<le> INF_DIST"
    "cost f ! followDir ?g i = 255 \<longrightarrow> integration ?g ! followDir ?g i = INF_DIST"
    using i by (auto simp: flood_inv_def)
  with dec show "cost f ! followDir ?g i \<noteq> 255" by auto
qed

lemma descent_general:
  fixes v :: "nat \<Rightarrow> nat" and F :: "nat \<Rightarrow> nat"
  assumes step: "\<And>i. P i \<Longrightarrow> v i \<noteq> 0 \<Longrightarrow> P (F i) \<and> v (F i) < v i"
    and zero: "\<And>i. P i \<Longrightarrow> v i = 0 \<Longrightarrow> i = t"
  shows "P i \<Longrightarrow> v i = k \<Longrightarrow>
    \<exists>m \<le> k. (F ^^ m) i = t \<and> (\<forall>j < m. v ((F ^^ Suc j) i) < v ((F ^^ j) i))"
proof (induction k arbitrary: i rule: less_induct)
  case (less k)
  show ?case
  proof (cases "k = 0")
    case True
    with less.prems zero have "i = t" by simp
    then have "(F ^^ 0) i = t \<and> (\<forall>j < 0. v ((F ^^ Suc j) i) < v ((F ^^ j) i))" by simp
    then show ?thesis by (intro exI[of _ 0]) simp
  next
    case False
    with less.prems have nz: "v i \<noteq> 0" by simp
    from step[OF less.prems(1) nz] have PF: "P (F i)" and lt: "v (F i) < v i" by auto
    from lt less.prems(2) have lt': "v (F i) < k" by simp
    from less.IH[OF lt' PF refl]
    obtain m where m: "m \<le> v (F i)" "(F ^^ m) (F i) = t"
      "\<And>j. j < m \<Longrightarrow> v ((F ^^ Suc j) (F i)) < v ((F ^^ j) (F i))"
      by blast
    have sw: "\<And>n x. (F ^^ Suc n) x = (F ^^ n) (F x)" by (simp only: funpow_Suc_right o_apply)
    have steps: "v ((F ^^ Suc j) i) < v ((F ^^ j) i)" if "j < Suc m" for j
    proof (cases j)
      case 0
      then show ?thesis using lt by simp
    next
      case (Suc j')
      with that have "j' < m" by simp
      from m(3)[OF this] show ?thesis unfolding Suc sw .
    qed
    have "(F ^^ Suc m) i = t" unfolding sw using m(2) .
    moreover have "Suc m \<le> k" using m(1) lt' by simp
    ultimately have "Suc m \<le> k \<and> (F ^^ Suc m) i = t \<and>
       (\<forall>j < Suc m. v ((F ^^ Suc j) i) < v ((F ^^ j) i))" using steps by blast
    then show ?thesis by (rule exI[of _ "Suc m"])
  qed
qed

lemma flood_invD:
  assumes "flood_inv f t integ" and "i < width f * height f"
  shows "integ ! i \<le> INF_DIST" and "cost f ! i = 255 \<Longrightarrow> integ ! i = INF_DIST"
    and "integ ! i = 0 \<Longrightarrow> i = t"
    and "0 < integ ! i \<Longrightarrow> integ ! i < INF_DIST \<Longrightarrow> descends f integ i"
proof -
  from assms have i: "i < length integ" by (simp add: flood_inv_def)
  from assms(1) have "\<forall>i < length integ.
         integ ! i \<le> INF_DIST \<and> (cost f ! i = 255 \<longrightarrow> integ ! i = INF_DIST) \<and>
         (integ ! i = 0 \<longrightarrow> i = t) \<and>
         (0 < integ ! i \<and> integ ! i < INF_DIST \<longrightarrow> descends f integ i)"
    unfolding flood_inv_def by (elim conjE)
  with i have *: "integ ! i \<le> INF_DIST \<and> (cost f ! i = 255 \<longrightarrow> integ ! i = INF_DIST) \<and>
         (integ ! i = 0 \<longrightarrow> i = t) \<and>
         (0 < integ ! i \<and> integ ! i < INF_DIST \<longrightarrow> descends f integ i)" by blast
  from * show "integ ! i \<le> INF_DIST" by (elim conjE)
  from * show "cost f ! i = 255 \<Longrightarrow> integ ! i = INF_DIST" by blast
  from * show "integ ! i = 0 \<Longrightarrow> i = t" by blast
  from * show "0 < integ ! i \<Longrightarrow> integ ! i < INF_DIST \<Longrightarrow> descends f integ i" by blast
qed

lemma descent_path:
  assumes wf: "wf_field f" and ib: "inBounds f tx ty" and nw: "\<not> isWall f tx ty"
    and i: "i < width f * height f" and c: "cost f ! i \<noteq> 255"
    and fin: "integration (generate f tx ty) ! i \<noteq> INF_DIST"
  shows "\<exists>m \<le> integration (generate f tx ty) ! i.
       (followDir (generate f tx ty) ^^ m) i = nat (idx f tx ty) \<and>
       (\<forall>j < m. integration (generate f tx ty) ! ((followDir (generate f tx ty) ^^ Suc j) i)
                  < integration (generate f tx ty) ! ((followDir (generate f tx ty) ^^ j) i))"
proof -
  define g where "g = generate f tx ty"
  define P where "P = (\<lambda>j. j < width f * height f \<and> cost f ! j \<noteq> 255 \<and> integration g ! j \<noteq> INF_DIST)"
  define v where "v = (\<lambda>j. integration g ! j)"
  note inv = generate_flood[OF wf ib nw, folded g_def]
  have step: "P (followDir g j) \<and> v (followDir g j) < v j" if "P j" "v j \<noteq> 0" for j
  proof -
    from that have j: "j < width f * height f" "cost f ! j \<noteq> 255"
      "integration (generate f tx ty) ! j \<noteq> INF_DIST" "integration (generate f tx ty) ! j \<noteq> 0"
      by (simp_all add: P_def v_def g_def)
    note fd = followDir_generate[OF wf ib nw j, folded g_def]
    from flood_invD(1)[OF inv j(1)] have "integration g ! j \<le> INF_DIST" .
    with fd(4) have "integration g ! followDir g j \<noteq> INF_DIST" by simp
    with fd show ?thesis by (simp add: P_def v_def)
  qed
  have zero: "j = nat (idx f tx ty)" if "P j" "v j = 0" for j
  proof -
    from that have "j < width f * height f" "integration g ! j = 0" by (simp_all add: P_def v_def)
    from flood_invD(3)[OF inv this] show ?thesis .
  qed
  have "P i" using i c fin by (simp add: P_def g_def)
  from descent_general[of P v "followDir g", OF step zero this refl]
  show ?thesis unfolding v_def g_def .
qed

definition grid22 :: FlowField where
  "grid22 = \<lparr>width = 2, height = 2, cost = [0, 0, 0, 0],
     integration = [65535, 65535, 65535, 65535], direction = [255, 255, 255, 255],
     targetX = 0, targetY = 0, queue = [0, 0, 0, 0]\<rparr>"

lemma replicate4: "replicate 4 x = [x, x, x, x]"
  by (simp add: numeral_eq_Suc)

lemma grid22_new: "grid22 = newFlowField 2 2"
  by (simp add: grid22_def newFlowField_def clear_def Let_def INF_DIST_def FLOW_DIR_NONE_def
      replicate4)

lemma grid22_wf: "wf_field grid22"
  by (simp add: wf_field_def grid22_def)

lemma grid22_target: "inBounds grid22 0 0" "\<not> isWall grid22 0 0" "idx grid22 0 0 = 0"
  by (simp_all add: inBounds_def isWall_def idx_def grid22_def)

lemma grid22_cleared: "cleared grid22 0 0 = grid22"
  by (simp add: cleared_def grid22_def INF_DIST_def FLOW_DIR_NONE_def replicate4)

lemma grid22_bfs:
  "bfs grid22 [0, 65535, 65535, 65535] [0, 0, 0, 0] 0 1 = ([0, 1, 1, 2], [0, 1, 2, 3])"
  by (simp add: bfs.simps relax_def grid22_def inBounds_def Let_def N4_def)


lemma grid22_integration: "integration (generate grid22 0 0) = [0, 1, 1, 2]"
  using grid22_bfs
  by (simp add: generate_valid(1)[OF grid22_target(1,2)] grid22_target(3) grid22_cleared)
    (simp add: grid22_def INF_DIST_def replicate4)

lemma grid22_cell3: "(3::nat) < width grid22 * height grid22" "cost grid22 ! 3 \<noteq> 255"
  by (simp_all add: grid22_def)

lemma grid22_direction3: "direction (generate grid22 0 0) ! 3 = 5"
  by (simp add: generate_direction[OF grid22_wf grid22_target(1,2) grid22_cell3(1)]
        grid22_integration Let_def)
     (simp add: grid22_def pickDir_def canUseDiagonal_def inBounds_def isWall_def idx_def N8_def
        INF_DIST_def FLOW_DIR_NONE_def upt_rec Let_def)

subsection \<open>The order of the flood fill\<close>

text \<open>
  The order of the flood fill. The first \<open>tail\<close> queue entries are the cells with a
  finite value, each once; the value at queue position \<open>k\<close> is at most \<open>k\<close>, and the
  values grow along the queue.
\<close>

definition queue_order :: "FlowField \<Rightarrow> nat list \<Rightarrow> nat list \<Rightarrow> nat \<Rightarrow> bool" where
  "queue_order f integ q tail =
     (length integ = width f * height f \<and> length q = width f * height f \<and>
      tail \<le> width f * height f \<and> distinct (take tail q) \<and>
      set (take tail q) = {c. c < width f * height f \<and> integ ! c \<noteq> INF_DIST} \<and>
      (\<forall>k < tail. integ ! (q ! k) \<le> k) \<and>
      (\<forall>a b. a \<le> b \<and> b < tail \<longrightarrow> integ ! (q ! a) \<le> integ ! (q ! b)))"

text \<open>Every walkable cardinal neighbour of cell \<open>c\<close> inside the grid has a finite value.\<close>

definition closedAt :: "FlowField \<Rightarrow> nat list \<Rightarrow> nat \<Rightarrow> (int \<times> int) list \<Rightarrow> bool" where
  "closedAt f integ c ds =
     (\<forall>d \<in> set ds. nbrIn f c d \<and> cost f ! nbrIdx f c d \<noteq> 255
         \<longrightarrow> integ ! nbrIdx f c d \<noteq> INF_DIST)"

lemma queue_full:
  assumes "distinct (take tail q)" "tail \<le> length q"
    and "set (take tail q) \<subseteq> {c. c < n}" "ni < n" "ni \<notin> set (take tail q)"
  shows "tail < n"
proof -
  have "length (take tail q) = card (set (take tail q))"
    using assms(1) by (simp add: distinct_card)
  also have "\<dots> \<le> card ({..<n} - {ni})"
    using assms(3,5) by (intro card_mono) auto
  also have "\<dots> = n - 1" using assms(4) by simp
  finally have "tail \<le> n - 1" using assms(2) by simp
  then show ?thesis using assms(4) by simp
qed

lemma relax_order:
  assumes qo: "queue_order f integ q tail" and ht: "head < tail"
    and cur: "cur = q ! head"
    and cx: "cx = int (cur mod width f)" and cy: "cy = int (cur div width f)"
    and nd: "nd = integ ! cur + 1"
    and le: "\<forall>k < tail. integ ! (q ! k) \<le> nd"
    and small: "width f * height f \<le> 65535"
    and r: "relax f cx cy nd d (integ, q, tail) = (integ', q', tail')"
  shows "queue_order f integ' q' tail' \<and> (\<forall>k < tail'. integ' ! (q' ! k) \<le> nd) \<and>
     integ' ! cur = integ ! cur \<and> q' ! head = cur \<and> tail \<le> tail' \<and>
     (\<forall>c < width f * height f. integ ! c \<noteq> INF_DIST \<longrightarrow> integ' ! c = integ ! c) \<and>
     (\<forall>k < tail. q' ! k = q ! k) \<and>
     closedAt f integ' cur [d]"
proof -
  let ?n = "width f * height f"
  from qo have li: "length integ = ?n" and lq: "length q = ?n" and tn: "tail \<le> ?n"
    and di: "distinct (take tail q)"
    and se: "set (take tail q) = {c. c < ?n \<and> integ ! c \<noteq> INF_DIST}"
    and kb: "\<forall>k < tail. integ ! (q ! k) \<le> k"
    and so: "\<forall>a b. a \<le> b \<and> b < tail \<longrightarrow> integ ! (q ! a) \<le> integ ! (q ! b)"
    unfolding queue_order_def by blast+
  have mem: "q ! k \<in> set (take tail q)" if "k < tail" for k
    using that tn lq by (metis in_set_conv_nth length_take min.absorb2 nth_take)
  have curin: "cur \<in> set (take tail q)" using mem[OF ht] cur by simp
  then have curn: "cur < ?n" "integ ! cur \<noteq> INF_DIST" using se by auto
  have curle: "integ ! cur \<le> head" using kb ht cur by simp
  define ni where "ni = nat ((cy + snd d) * int (width f) + (cx + fst d))"
  have nix: "nbrIdx f cur d = ni" by (simp add: nbrIdx_def ni_def cx cy)
  have nin: "nbrIn f cur d = inBounds f (cx + fst d) (cy + snd d)" by (simp add: nbrIn_def cx cy)
  show ?thesis
  proof (cases "(integ', q', tail') = (integ, q, tail)")
    case True
    have "closedAt f integ cur [d]"
      unfolding closedAt_def
    proof (intro ballI impI)
      fix e assume e: "e \<in> set [d]" and a: "nbrIn f cur e \<and> cost f ! nbrIdx f cur e \<noteq> 255"
      then have ed: "e = d" by simp
      from a ed have ib: "inBounds f (cx + fst d) (cy + snd d)" and nw: "cost f ! ni \<noteq> 255"
        by (simp_all add: nin nix)
      have nil: "ni < length integ" using idx_lt[OF ib] li by (simp add: ni_def)
      from r True ib nw nil have nolt: "\<not> nd < integ ! ni"
        by (auto simp: relax_def Let_def ni_def[symmetric] split: if_splits)
      have "integ ! ni \<noteq> INF_DIST"
      proof
        assume inf: "integ ! ni = INF_DIST"
        have nin': "ni < ?n" using nil li by simp
        have notin: "ni \<notin> set (take tail q)" using se inf by simp
        have sub: "set (take tail q) \<subseteq> {c. c < ?n}" using se by auto
        have "tail < ?n" using queue_full[OF di _ sub nin' notin] lq tn by simp
        moreover have "nd \<le> tail" using curle ht by (simp add: nd)
        ultimately have "nd < INF_DIST" using small by (simp add: INF_DIST_def)
        with nolt inf show False by simp
      qed
      then show "integ ! nbrIdx f cur e \<noteq> INF_DIST" by (simp add: ed nix)
    qed
    with True qo le cur show ?thesis by simp
  next
    case False
    from False r have ib: "inBounds f (cx + fst d) (cy + snd d)"
      and nw: "\<not> (ni < length (cost f) \<and> cost f ! ni = 255)"
      and w: "ni < length integ" "nd < integ ! ni"
      and res: "integ' = integ[ni := nd]" "q' = q[tail := ni]" "tail' = Suc tail"
      by (auto simp: relax_def Let_def ni_def split: if_splits)
    have nin': "ni < ?n" using w li by simp
    have inf: "integ ! ni = INF_DIST"
    proof (rule ccontr)
      assume "integ ! ni \<noteq> INF_DIST"
      then have "ni \<in> set (take tail q)" using se nin' by simp
      then obtain k where "k < tail" "q ! k = ni"
        using tn lq by (auto simp: in_set_conv_nth)
      with le have "integ ! ni \<le> nd" by auto
      with w show False by simp
    qed
    then have notin: "ni \<notin> set (take tail q)" using se by simp
    have sub: "set (take tail q) \<subseteq> {c. c < ?n}" using se by auto
    have tl: "tail < ?n" using queue_full[OF di _ sub nin' notin] lq tn by simp
    have ntq: "q ! k \<noteq> ni" if "k < tail" for k using mem[OF that] notin by auto
    have tk: "take (Suc tail) (q[tail := ni]) = take tail q @ [ni]"
      using tl lq by (simp add: take_Suc_conv_app_nth)
    have nicur: "ni \<noteq> cur" using curin notin by auto
    have ndinf: "nd \<noteq> INF_DIST" using w inf by simp
    have qo': "queue_order f integ' q' tail'"
      unfolding queue_order_def res
    proof (intro conjI allI impI)
      show "length (integ[ni := nd]) = ?n" using li by simp
      show "length (q[tail := ni]) = ?n" using lq by simp
      show "Suc tail \<le> ?n" using tl by simp
      show "distinct (take (Suc tail) (q[tail := ni]))" unfolding tk using di notin by simp
      show "set (take (Suc tail) (q[tail := ni])) = {c. c < ?n \<and> integ[ni := nd] ! c \<noteq> INF_DIST}"
        unfolding tk using se nin' li ndinf inf by (auto simp: nth_list_update)
    next
      fix k assume k: "k < Suc tail"
      show "integ[ni := nd] ! (q[tail := ni] ! k) \<le> k"
      proof (cases "k = tail")
        case True
        then show ?thesis using tl lq w nd curle ht by simp
      next
        case False
        with k have kt: "k < tail" by simp
        then show ?thesis using kb ntq[OF kt] by simp
      qed
    next
      fix a b assume ab: "a \<le> b \<and> b < Suc tail"
      show "integ[ni := nd] ! (q[tail := ni] ! a) \<le> integ[ni := nd] ! (q[tail := ni] ! b)"
      proof (cases "b = tail")
        case bt: True
        show ?thesis
        proof (cases "a = tail")
          case True
          then show ?thesis using bt by simp
        next
          case False
          with ab bt have at: "a < tail" by simp
          then show ?thesis using bt tl lq w le ntq[OF at] by simp
        qed
      next
        case False
        with ab have bt: "b < tail" and at: "a < tail" by simp_all
        then show ?thesis using so ab ntq[OF at] ntq[OF bt] by simp
      qed
    qed
    have le': "\<forall>k < tail'. integ' ! (q' ! k) \<le> nd"
    proof (intro allI impI)
      fix k assume k: "k < tail'"
      show "integ' ! (q' ! k) \<le> nd"
      proof (cases "k = tail")
        case True
        then show ?thesis using res tl lq w by simp
      next
        case False
        with k res have kt: "k < tail" by simp
        then show ?thesis using le res ntq[OF kt] by simp
      qed
    qed
    have c1: "integ' ! cur = integ ! cur" using res nicur by simp
    have c2: "q' ! head = cur" using res ht cur by simp
    have c3: "\<forall>c < ?n. integ ! c \<noteq> INF_DIST \<longrightarrow> integ' ! c = integ ! c"
    proof (intro allI impI)
      fix c assume "c < ?n" "integ ! c \<noteq> INF_DIST"
      then have "c \<noteq> ni" using inf by auto
      then show "integ' ! c = integ ! c" using res by simp
    qed
    have c4: "\<forall>k < tail. q' ! k = q ! k" using res by simp
    have c5: "closedAt f integ' cur [d]"
      unfolding closedAt_def using res w ndinf by (simp add: nix)
    show ?thesis using qo' le' c1 c2 c3 c4 c5 res by simp
  qed
qed

lemma closedAt_keep:
  assumes "closedAt f integ c ds" and li: "length integ = width f * height f"
    and same: "\<forall>k < width f * height f. integ ! k \<noteq> INF_DIST \<longrightarrow> integ' ! k = integ ! k"
  shows "closedAt f integ' c ds"
  unfolding closedAt_def
proof (intro ballI impI)
  fix d assume d: "d \<in> set ds" and a: "nbrIn f c d \<and> cost f ! nbrIdx f c d \<noteq> 255"
  with assms(1) have fin: "integ ! nbrIdx f c d \<noteq> INF_DIST" by (auto simp: closedAt_def)
  from a have "nbrIdx f c d < width f * height f" using nbrIdx_lt by blast
  with same fin show "integ' ! nbrIdx f c d \<noteq> INF_DIST" by simp
qed

lemma closedAt_Cons: "closedAt f integ c [d] \<Longrightarrow> closedAt f integ c ds \<Longrightarrow> closedAt f integ c (d # ds)"
  by (simp add: closedAt_def)

lemma fold_relax_order:
  assumes "queue_order f integ q tail" and ht: "head < tail"
    and "cur = q ! head"
    and cx: "cx = int (cur mod width f)" and cy: "cy = int (cur div width f)"
    and "nd = integ ! cur + 1"
    and "\<forall>k < tail. integ ! (q ! k) \<le> nd"
    and small: "width f * height f \<le> 65535"
    and "fold (relax f cx cy nd) ds (integ, q, tail) = (integ', q', tail')"
  shows "queue_order f integ' q' tail' \<and> (\<forall>k < tail'. integ' ! (q' ! k) \<le> nd) \<and>
     integ' ! cur = integ ! cur \<and> q' ! head = cur \<and> tail \<le> tail' \<and>
     (\<forall>c < width f * height f. integ ! c \<noteq> INF_DIST \<longrightarrow> integ' ! c = integ ! c) \<and>
     (\<forall>k < tail. q' ! k = q ! k) \<and>
     closedAt f integ' cur ds"
  using assms(1,2,3,6,7,9)
proof (induction ds arbitrary: integ q tail)
  case Nil
  then show ?case by (simp add: closedAt_def)
next
  case (Cons d ds)
  obtain i1 q1 t1 where s: "relax f cx cy nd d (integ, q, tail) = (i1, q1, t1)"
    by (metis prod_cases3)
  from relax_order[OF Cons.prems(1,2,3) cx cy Cons.prems(4,5) small s]
  have a: "queue_order f i1 q1 t1" "\<forall>k < t1. i1 ! (q1 ! k) \<le> nd"
    "i1 ! cur = integ ! cur" "q1 ! head = cur" "tail \<le> t1"
    "\<forall>c < width f * height f. integ ! c \<noteq> INF_DIST \<longrightarrow> i1 ! c = integ ! c"
    "\<forall>k < tail. q1 ! k = q ! k" "closedAt f i1 cur [d]"
    by blast+
  from Cons.prems(6) s have r: "fold (relax f cx cy nd) ds (i1, q1, t1) = (integ', q', tail')" by simp
  have ht1: "head < t1" using Cons.prems(2) a(5) by simp
  have nd1: "nd = i1 ! cur + 1" using Cons.prems(4) a(3) by simp
  from Cons.IH[OF a(1) ht1 a(4)[symmetric] nd1 a(2) r]
  have b: "queue_order f integ' q' tail'" "\<forall>k < tail'. integ' ! (q' ! k) \<le> nd"
    "integ' ! cur = i1 ! cur" "q' ! head = cur" "t1 \<le> tail'"
    "\<forall>c < width f * height f. i1 ! c \<noteq> INF_DIST \<longrightarrow> integ' ! c = i1 ! c"
    "\<forall>k < t1. q' ! k = q1 ! k" "closedAt f integ' cur ds"
    by blast+
  have li1: "length i1 = width f * height f" using a(1) by (simp add: queue_order_def)
  have c1: "closedAt f integ' cur (d # ds)"
    by (rule closedAt_Cons[OF closedAt_keep[OF a(8) li1 b(6)] b(8)])
  have c2: "\<forall>c < width f * height f. integ ! c \<noteq> INF_DIST \<longrightarrow> integ' ! c = integ ! c"
    using a(6) b(6) by simp
  have c3: "\<forall>k < tail. q' ! k = q ! k" using a(5,7) b(7) by simp
  show ?case using b(1,2,4) a(3) b(3) a(5) b(5) c1 c2 c3 by simp
qed

text \<open>The invariant of the \<open>while\<close> loop that gives the order and the closure.\<close>

definition bfs_order :: "FlowField \<Rightarrow> nat list \<Rightarrow> nat list \<Rightarrow> nat \<Rightarrow> nat \<Rightarrow> bool" where
  "bfs_order f integ q head tail =
     (queue_order f integ q tail \<and> head \<le> tail \<and>
      (head < tail \<longrightarrow> (\<forall>k < tail. integ ! (q ! k) \<le> integ ! (q ! head) + 1)) \<and>
      (\<forall>k < head. closedAt f integ (q ! k) N4))"

lemma bfs_closed:
  assumes "bfs_order f integ q head tail" and small: "width f * height f \<le> 65535"
  shows "\<forall>c < width f * height f.
     fst (bfs f integ q head tail) ! c \<noteq> INF_DIST \<longrightarrow> closedAt f (fst (bfs f integ q head tail)) c N4"
  using assms
proof (induction f integ q head tail rule: bfs.induct)
  case (1 f integ q head tail)
  let ?n = "width f * height f"
  from "1.prems" have small: "width f * height f \<le> 65535" by simp
  from "1.prems" have qo: "queue_order f integ q tail" and hl: "head \<le> tail"
    and le: "head < tail \<longrightarrow> (\<forall>k < tail. integ ! (q ! k) \<le> integ ! (q ! head) + 1)"
    and pr: "\<forall>k < head. closedAt f integ (q ! k) N4"
    unfolding bfs_order_def by blast+
  from qo have li: "length integ = ?n" and lq: "length q = ?n" and tn: "tail \<le> ?n"
    and se: "set (take tail q) = {c. c < ?n \<and> integ ! c \<noteq> INF_DIST}"
    and kb: "\<forall>k < tail. integ ! (q ! k) \<le> k"
    unfolding queue_order_def by blast+
  show ?case
  proof (cases "head < tail")
    case False
    with hl have ht: "head = tail" by simp
    have "closedAt f integ c N4" if "c < ?n" "integ ! c \<noteq> INF_DIST" for c
    proof -
      from that se have "c \<in> set (take tail q)" by simp
      then obtain k where "k < tail" "q ! k = c" using tn lq by (auto simp: in_set_conv_nth)
      with pr ht show ?thesis by auto
    qed
    then show ?thesis using False bfs.simps[of f integ q head tail] by simp
  next
    case ht: True
    then have hq: "head < length q" using tn lq by simp
    define curIdx where "curIdx = q ! head"
    define nextDist where "nextDist = (if curIdx < length integ then (integ ! curIdx + 1) mod 65536 else 0)"
    define cx where "cx = int (curIdx mod width f)"
    define cy where "cy = int (curIdx div width f)"
    define r where "r = fold (relax f cx cy nextDist) N4 (integ, q, tail)"
    have "curIdx \<in> set (take tail q)"
      unfolding curIdx_def using ht tn lq
      by (metis in_set_conv_nth length_take min.absorb2 nth_take)
    then have cn: "curIdx < length integ" using se li by simp
    have "integ ! curIdx \<le> head" using kb ht by (simp add: curIdx_def)
    moreover have "tail \<le> 65535" using tn small by (rule order_trans)
    ultimately have "integ ! curIdx < 65535" using ht by (meson le_less_trans less_le_trans)
    then have "integ ! curIdx + 1 \<le> 65535" by (simp add: Suc_leI)
    then have nd: "nextDist = integ ! curIdx + 1" using cn by (simp add: nextDist_def)
    have le': "\<forall>k < tail. integ ! (q ! k) \<le> nextDist" using le ht by (simp add: nd curIdx_def)
    have r': "fold (relax f cx cy nextDist) N4 (integ, q, tail) = (fst r, fst (snd r), snd (snd r))"
      by (simp add: r_def)
    from fold_relax_order[OF qo ht curIdx_def cx_def cy_def nd le' small r']
    have b: "queue_order f (fst r) (fst (snd r)) (snd (snd r))"
      "\<forall>k < snd (snd r). fst r ! (fst (snd r) ! k) \<le> nextDist"
      "fst r ! curIdx = integ ! curIdx" "fst (snd r) ! head = curIdx" "tail \<le> snd (snd r)"
      "\<forall>c < ?n. integ ! c \<noteq> INF_DIST \<longrightarrow> fst r ! c = integ ! c"
      "\<forall>k < tail. fst (snd r) ! k = q ! k" "closedAt f (fst r) curIdx N4"
      by blast+
    from b(1) have so: "\<forall>a b. a \<le> b \<and> b < snd (snd r) \<longrightarrow>
        fst r ! (fst (snd r) ! a) \<le> fst r ! (fst (snd r) ! b)"
      unfolding queue_order_def by blast
    have o: "bfs_order f (fst r) (fst (snd r)) (Suc head) (snd (snd r))"
      unfolding bfs_order_def
    proof (intro conjI impI allI)
      show "queue_order f (fst r) (fst (snd r)) (snd (snd r))" by (rule b(1))
      show "Suc head \<le> snd (snd r)" using ht b(5) by simp
    next
      fix k assume h2: "Suc head < snd (snd r)" and k: "k < snd (snd r)"
      have "fst r ! (fst (snd r) ! head) \<le> fst r ! (fst (snd r) ! Suc head)"
        using so h2 by simp
      moreover have "fst r ! (fst (snd r) ! k) \<le> fst r ! (fst (snd r) ! head) + 1"
        using b(2) k by (simp add: b(4) b(3) nd)
      ultimately show "fst r ! (fst (snd r) ! k) \<le> fst r ! (fst (snd r) ! Suc head) + 1"
        by linarith
    next
      fix k assume k: "k < Suc head"
      show "closedAt f (fst r) (fst (snd r) ! k) N4"
      proof (cases "k = head")
        case True
        then show ?thesis using b(4,8) by simp
      next
        case False
        with k have kh: "k < head" by simp
        then have "fst (snd r) ! k = q ! k" using b(7) ht by simp
        moreover have "closedAt f (fst r) (q ! k) N4"
          using closedAt_keep[OF _ li b(6)] pr kh by simp
        ultimately show ?thesis by simp
      qed
    qed
    have e: "bfs f integ q head tail = bfs f (fst r) (fst (snd r)) (Suc head) (snd (snd r))"
      using ht hq bfs.simps[of f integ q head tail]
      by (simp add: Let_def curIdx_def nextDist_def cx_def cy_def r_def)
    from "1.IH"(1)[OF ht hq curIdx_def nextDist_def cx_def cy_def r_def o small] e
    show ?thesis by simp
  qed
qed

text \<open>
  A walk over walkable cells by cardinal steps: from cell \<open>c\<close>, take the steps \<open>ds\<close> in
  turn; each must be one of \<open>N4\<close>, stay inside the grid and land on a cell that is not a
  wall. The result is the cell reached, or \<open>None\<close> when a step is not allowed.
\<close>

fun walkN4 :: "FlowField \<Rightarrow> nat \<Rightarrow> (int \<times> int) list \<Rightarrow> nat option" where
  "walkN4 f c [] = Some c"
| "walkN4 f c (d # ds) =
     (if d \<in> set N4 \<and> nbrIn f c d \<and> cost f ! nbrIdx f c d \<noteq> 255
      then walkN4 f (nbrIdx f c d) ds else None)"

lemma bfs_order_start:
  assumes n: "length integ0 = width f * height f" "length q0 = width f * height f"
    and t: "t < width f * height f"
  shows "bfs_order f ((replicate (length integ0) INF_DIST)[t := 0]) (q0[0 := t]) 0 1"
proof -
  let ?n = "width f * height f"
  let ?i = "(replicate (length integ0) INF_DIST)[t := 0]"
  have v: "?i ! c = (if c = t then 0 else INF_DIST)" if "c < ?n" for c
    using that n t by (simp add: nth_list_update)
  have "q0 \<noteq> []" using n t by auto
  then have q: "take 1 (q0[0 := t]) = [t]" by (cases q0) simp_all
  have s: "{c. c < ?n \<and> ?i ! c \<noteq> INF_DIST} = {t}"
    using v t by (auto simp: INF_DIST_def split: if_splits)
  have q0t: "q0[0 := t] ! 0 = t" using \<open>q0 \<noteq> []\<close> by (cases q0) simp_all
  have vt: "?i ! (q0[0 := t] ! 0) = 0" using v[OF t] by (simp only: q0t) simp
  have one: "1 \<le> ?n" using t by linarith
  have li: "length ?i = ?n" using n by simp
  have lq: "length (q0[0 := t]) = ?n" using n by simp
  have qo: "queue_order f ?i (q0[0 := t]) 1"
    unfolding queue_order_def
  proof (intro conjI allI impI)
    show "length ?i = ?n" by (rule li)
    show "length (q0[0 := t]) = ?n" by (rule lq)
    show "1 \<le> ?n" by (rule one)
    show "distinct (take 1 (q0[0 := t]))" by (simp only: q) simp
    show "set (take 1 (q0[0 := t])) = {c. c < ?n \<and> ?i ! c \<noteq> INF_DIST}"
      by (simp only: q s) simp
  next
    fix k :: nat assume "k < 1"
    then have "k = 0" by simp
    then show "?i ! (q0[0 := t] ! k) \<le> k" using vt by simp
  next
    fix a b :: nat assume "a \<le> b \<and> b < 1"
    then have "a = 0" "b = 0" by simp_all
    then show "?i ! (q0[0 := t] ! a) \<le> ?i ! (q0[0 := t] ! b)" by simp
  qed
  show ?thesis
    unfolding bfs_order_def
  proof (intro conjI allI impI)
    show "queue_order f ?i (q0[0 := t]) 1" by (rule qo)
    show "(0::nat) \<le> 1" by simp
  next
    fix k :: nat assume "k < 1"
    then have "k = 0" by simp
    then show "?i ! (q0[0 := t] ! k) \<le> ?i ! (q0[0 := t] ! 0) + 1" by simp
  next
    fix k :: nat assume "k < 0"
    then show "closedAt f ?i (q0[0 := t] ! k) N4" by simp
  qed
qed

lemma closedAt_cong:
  assumes "width g = width f" "height g = height f" "cost g = cost f"
  shows "closedAt g = closedAt f"
  using grid_cong(5,6)[OF assms] assms(3) by (intro ext) (simp add: closedAt_def)

lemma generate_closed:
  assumes wf: "wf_field f" and ib: "inBounds f tx ty" and nw: "\<not> isWall f tx ty"
    and small: "width f * height f \<le> 65535"
    and c: "c < width f * height f" and fin: "integration (generate f tx ty) ! c \<noteq> INF_DIST"
  shows "closedAt f (integration (generate f tx ty)) c N4"
proof -
  let ?f = "cleared f tx ty"
  from wf have len: "length (integration f) = width f * height f"
    "length (queue f) = width f * height f" by (auto simp: wf_field_def)
  have t: "nat (idx f tx ty) < width f * height f"
    using generate_flood[OF wf ib nw] by (simp add: flood_inv_def)
  have o: "bfs_order ?f ((replicate (length (integration f)) INF_DIST)[nat (idx f tx ty) := 0])
      ((queue f)[0 := nat (idx f tx ty)]) 0 1"
    by (rule bfs_order_start) (simp_all add: len t)
  have sm: "width ?f * height ?f \<le> 65535" using small by simp
  from bfs_closed[OF o sm] generate_valid(1)[OF ib nw] c fin
  have "closedAt ?f (integration (generate f tx ty)) c N4" by simp
  then show ?thesis by (simp add: closedAt_cong[of ?f f])
qed

lemma generate_complete:
  assumes wf: "wf_field f" and ib: "inBounds f tx ty" and nw: "\<not> isWall f tx ty"
    and small: "width f * height f \<le> 65535"
    and c: "c < width f * height f" and fin: "integration (generate f tx ty) ! c \<noteq> INF_DIST"
    and w: "walkN4 f c ds = Some i"
  shows "i < width f * height f \<and> integration (generate f tx ty) ! i \<noteq> INF_DIST"
  using c fin w
proof (induction ds arbitrary: c)
  case Nil
  then show ?case by simp
next
  case (Cons d ds)
  from Cons.prems(3) have d: "d \<in> set N4" "nbrIn f c d" "cost f ! nbrIdx f c d \<noteq> 255"
    and r: "walkN4 f (nbrIdx f c d) ds = Some i"
    by (simp_all split: if_splits)
  from generate_closed[OF wf ib nw small Cons.prems(1,2)] d
  have "integration (generate f tx ty) ! nbrIdx f c d \<noteq> INF_DIST"
    unfolding closedAt_def by blast
  from Cons.IH[OF nbrIdx_lt[OF d(2)] this r] show ?case .
qed

section \<open>The controller: edits, terrain, reachable states\<close>

lemma bfs_length:
  "length (fst (bfs f integ q head tail)) = length integ \<and>
   length (snd (bfs f integ q head tail)) = length q"
proof (induction f integ q head tail rule: bfs.induct)
  case (1 f integ q head tail)
  show ?case
  proof (cases "head < tail")
    case False
    then show ?thesis using bfs.simps[of f integ q head tail] by simp
  next
    case ht: True
    show ?thesis
    proof (cases "head < length q")
      case False
      with ht "1.IH"(2) bfs.simps[of f integ q head tail] show ?thesis by simp
    next
      case hq: True
      define curIdx where "curIdx = q ! head"
      define nextDist where "nextDist = (if curIdx < length integ then (integ ! curIdx + 1) mod 65536 else 0)"
      define cx where "cx = int (curIdx mod width f)"
      define cy where "cy = int (curIdx div width f)"
      define r where "r = fold (relax f cx cy nextDist) N4 (integ, q, tail)"
      have r': "fold (relax f cx cy nextDist) N4 (integ, q, tail) = (fst r, fst (snd r), snd (snd r))"
        by (simp add: r_def)
      from fold_relax_measure[OF r']
      have l: "length (fst r) = length integ" "length (fst (snd r)) = length q" by auto
      have e: "bfs f integ q head tail = bfs f (fst r) (fst (snd r)) (Suc head) (snd (snd r))"
        using ht hq bfs.simps[of f integ q head tail]
        by (simp add: Let_def curIdx_def nextDist_def cx_def cy_def r_def)
      from "1.IH"(1)[OF ht hq curIdx_def nextDist_def cx_def cy_def r_def] l e
      show ?thesis by simp
    qed
  qed
qed

lemma wf_generate: "wf_field f \<Longrightarrow> wf_field (generate f tx ty)"
  by (simp add: generate_def wf_field_def Let_def bfs_length fold_assignDir_length)

lemma wf_setWall: "wf_field f \<Longrightarrow> wf_field (setWall f x y b)"
  by (simp add: setWall_def wf_field_def Let_def)

lemma setWall_grid [simp]:
  "width (setWall f x y b) = width f" "height (setWall f x y b) = height f"
  "targetX (setWall f x y b) = targetX f" "targetY (setWall f x y b) = targetY f"
  "length (cost (setWall f x y b)) = length (cost f)"
  by (simp_all add: setWall_def Let_def)

lemma idx_inj:
  assumes "inBounds f x y" "inBounds f a b" "idx f x y = idx f a b"
  shows "x = a \<and> y = b"
  using decode_idx[OF assms(1)] decode_idx[OF assms(2)] assms(3)
  by (simp add: idx_def)

lemma idx_range:
  assumes "inBounds f x y" "length (cost f) = width f * height f"
  shows "0 \<le> idx f x y \<and> nat (idx f x y) < length (cost f)"
  using idx_lt[OF assms(1)] assms by (simp add: idx_def inBounds_def)

lemma isWall_setWall_same:
  assumes "inBounds f x y" "length (cost f) = width f * height f"
  shows "isWall (setWall f x y b) x y = b"
  using idx_range[OF assms] by (simp add: isWall_def setWall_def Let_def idx_def)

lemma isWall_setWall_other:
  assumes "inBounds f x y" "inBounds f a c" "(a, c) \<noteq> (x, y)"
  shows "isWall (setWall f x y b) a c = isWall f a c"
proof -
  have ne: "idx f a c \<noteq> idx f x y" using idx_inj[OF assms(2,1)] assms(3) by auto
  have nn: "0 \<le> idx f a c" "0 \<le> idx f x y" using assms(1,2) by (simp_all add: idx_def inBounds_def)
  then have "nat (idx f a c) \<noteq> nat (idx f x y)" using ne by simp
  then show ?thesis by (simp add: isWall_def setWall_def Let_def idx_def)
qed

text \<open>A field that has the geometry of another and no wall the other has not.\<close>

definition noNewWalls :: "FlowField \<Rightarrow> FlowField \<Rightarrow> bool" where
  "noNewWalls f g =
     (width g = width f \<and> height g = height f \<and> length (cost g) = length (cost f) \<and>
      (\<forall>i < length (cost f). cost g ! i = 255 \<longrightarrow> cost f ! i = 255))"

lemma noNewWalls_refl: "noNewWalls f f"
  by (simp add: noNewWalls_def)

lemma noNewWalls_trans: "noNewWalls f g \<Longrightarrow> noNewWalls g h \<Longrightarrow> noNewWalls f h"
  by (simp add: noNewWalls_def)

lemma noNewWalls_setWall: "noNewWalls f (setWall f x y False)"
  by (auto simp: noNewWalls_def setWall_def Let_def nth_list_update)

lemma noNewWalls_isWall: "noNewWalls f g \<Longrightarrow> \<not> isWall f x y \<Longrightarrow> \<not> isWall g x y"
  by (auto simp: noNewWalls_def isWall_def idx_def Let_def)

lemma noNewWalls_inBounds: "noNewWalls f g \<Longrightarrow> inBounds g x y = inBounds f x y"
  by (simp add: noNewWalls_def inBounds_def)

lemma fold_noNewWalls:
  assumes "\<And>a f. noNewWalls f (st a f)"
  shows "noNewWalls f (fold st as f)"
proof (induction as arbitrary: f)
  case Nil
  then show ?case by (simp add: noNewWalls_refl)
next
  case (Cons a as)
  from noNewWalls_trans[OF assms[of f a] Cons[of "st a f"]] show ?case by simp
qed

lemma fold_opens:
  assumes nn: "\<And>a f. noNewWalls f (st a f)"
    and op: "\<And>f. noNewWalls f0 f \<Longrightarrow> \<not> isWall (st a0 f) x y"
    and mem: "a0 \<in> set as"
  shows "noNewWalls f0 f \<Longrightarrow> \<not> isWall (fold st as f) x y"
  using mem
proof (induction as arbitrary: f)
  case Nil
  then show ?case by simp
next
  case (Cons a as)
  have f': "noNewWalls f0 (st a f)" using noNewWalls_trans[OF Cons.prems(1) nn] .
  show ?case
  proof (cases "a0 \<in> set as")
    case True
    from Cons.IH[OF f' True] show ?thesis by simp
  next
    case False
    with Cons.prems have "a = a0" by simp
    with op[OF Cons.prems(1)] have "\<not> isWall (st a f) x y" by simp
    from noNewWalls_isWall[OF fold_noNewWalls[of st "st a f" as, OF nn] this]
    show ?thesis by simp
  qed
qed

definition cellsOpen :: "FlowField \<Rightarrow> bool" where
  "cellsOpen f =
     (\<forall>x y. inBounds f x y \<and>
        (x = 0 \<or> y = 0 \<or> x = int (width f) - 1 \<or> y = int (height f) - 1 \<or>
         (\<bar>x - int (width f div 2)\<bar> \<le> 1 \<and> \<bar>y - int (height f div 2)\<bar> \<le> 1))
        \<longrightarrow> \<not> isWall f x y)"

definition blockStep :: "int \<Rightarrow> int \<Rightarrow> int \<Rightarrow> int \<Rightarrow> FlowField \<Rightarrow> FlowField" where
  "blockStep tx ty dy dx f =
     (let x = tx + dx; y = ty + dy in if \<not> inBounds f x y then f else setWall f x y False)"

definition rowStep :: "nat \<Rightarrow> FlowField \<Rightarrow> FlowField" where
  "rowStep x f = setWall (setWall f (int x) 0 False) (int x) (int (height f) - 1) False"

definition colStep :: "nat \<Rightarrow> FlowField \<Rightarrow> FlowField" where
  "colStep y f = setWall (setWall f 0 (int y) False) (int (width f) - 1) (int y) False"

lemma ensure_alt:
  "ensureBaseAndEdgeOpen f0 =
     (let tx = int (width f0 div 2); ty = int (height f0 div 2);
          f1 = fold (\<lambda>dy. fold (blockStep tx ty dy) [-1, 0, 1]) [-1, 0, 1] f0;
          f2 = fold rowStep [0..<width f1] f1
      in fold colStep [0..<height f2] f2)"
  unfolding ensureBaseAndEdgeOpen_def blockStep_def rowStep_def colStep_def Let_def ..

lemma noNew_blockStep: "noNewWalls f (blockStep tx ty dy dx f)"
  by (simp add: blockStep_def Let_def noNewWalls_refl noNewWalls_setWall)

lemma noNew_blockRow: "noNewWalls f (fold (blockStep tx ty dy) ds f)"
  by (rule fold_noNewWalls) (rule noNew_blockStep)

lemma noNew_rowStep: "noNewWalls f (rowStep x f)"
  unfolding rowStep_def
  by (rule noNewWalls_trans[OF noNewWalls_setWall noNewWalls_setWall])

lemma noNew_colStep: "noNewWalls f (colStep x f)"
  unfolding colStep_def
  by (rule noNewWalls_trans[OF noNewWalls_setWall noNewWalls_setWall])

lemma setWall_opens:
  assumes "noNewWalls f0 f" "length (cost f0) = width f0 * height f0" "inBounds f0 x y"
  shows "\<not> isWall (setWall f x y False) x y"
proof -
  from assms have "inBounds f x y" "length (cost f) = width f * height f"
    by (simp_all add: noNewWalls_def inBounds_def)
  from isWall_setWall_same[OF this] show ?thesis by simp
qed

lemma ensure_noNew: "noNewWalls f (ensureBaseAndEdgeOpen f)"
proof -
  let ?tx = "int (width f div 2)" and ?ty = "int (height f div 2)"
  let ?f1 = "fold (\<lambda>dy. fold (blockStep ?tx ?ty dy) [-1, 0, 1]) [-1, 0, 1] f"
  let ?f2 = "fold rowStep [0..<width ?f1] ?f1"
  have 1: "noNewWalls f ?f1" by (rule fold_noNewWalls) (rule noNew_blockRow)
  have 2: "noNewWalls ?f1 ?f2" by (rule fold_noNewWalls) (rule noNew_rowStep)
  have 3: "noNewWalls ?f2 (fold colStep [0..<height ?f2] ?f2)"
    by (rule fold_noNewWalls) (rule noNew_colStep)
  from noNewWalls_trans[OF noNewWalls_trans[OF 1 2] 3] show ?thesis
    by (simp add: ensure_alt Let_def)
qed

lemma ensure_opens:
  assumes len: "length (cost f) = width f * height f" and ib: "inBounds f x y"
    and sel: "x = 0 \<or> y = 0 \<or> x = int (width f) - 1 \<or> y = int (height f) - 1 \<or>
         (\<bar>x - int (width f div 2)\<bar> \<le> 1 \<and> \<bar>y - int (height f div 2)\<bar> \<le> 1)"
  shows "\<not> isWall (ensureBaseAndEdgeOpen f) x y"
proof -
  let ?tx = "int (width f div 2)" and ?ty = "int (height f div 2)"
  let ?blk = "\<lambda>dy. fold (blockStep ?tx ?ty dy) [-1, 0, 1]"
  let ?f1 = "fold ?blk [-1, 0, 1] f"
  let ?f2 = "fold rowStep [0..<width ?f1] ?f1"
  let ?f3 = "fold colStep [0..<height ?f2] ?f2"
  have e: "ensureBaseAndEdgeOpen f = ?f3" by (simp add: ensure_alt Let_def)
  have n1: "noNewWalls f ?f1" by (rule fold_noNewWalls) (rule noNew_blockRow)
  have n2: "noNewWalls ?f1 ?f2" by (rule fold_noNewWalls) (rule noNew_rowStep)
  have n3: "noNewWalls ?f2 ?f3" by (rule fold_noNewWalls) (rule noNew_colStep)
  have n12: "noNewWalls f ?f2" using noNewWalls_trans[OF n1 n2] .
  have w1: "width ?f1 = width f" "height ?f1 = height f" using n1 by (simp_all add: noNewWalls_def)
  have w2: "width ?f2 = width f" "height ?f2 = height f" using n12 by (simp_all add: noNewWalls_def)
  from ib have xr: "0 \<le> x" "x < int (width f)" and yr: "0 \<le> y" "y < int (height f)"
    by (simp_all add: inBounds_def)
  consider (blk) "\<bar>x - ?tx\<bar> \<le> 1 \<and> \<bar>y - ?ty\<bar> \<le> 1"
    | (row) "y = 0 \<or> y = int (height f) - 1"
    | (col) "x = 0 \<or> x = int (width f) - 1"
    using sel by blast
  then show ?thesis
  proof cases
    case blk
    then have dx: "x - ?tx \<in> set [-1, 0, 1]" and dy: "y - ?ty \<in> set [-1, 0, 1]" by auto
    have inner: "\<not> isWall (?blk (y - ?ty) g) x y" if g: "noNewWalls f g" for g
    proof (rule fold_opens[where st = "blockStep ?tx ?ty (y - ?ty)" and ?a0.0 = "x - ?tx"
          and ?f0.0 = f and x = x and y = y, OF noNew_blockStep _ dx g])
      fix h assume h: "noNewWalls f h"
      then have "inBounds h x y" using ib by (simp add: noNewWalls_inBounds)
      then show "\<not> isWall (blockStep ?tx ?ty (y - ?ty) (x - ?tx) h) x y"
        using setWall_opens[OF h len ib] by (simp add: blockStep_def Let_def)
    qed
    have "\<not> isWall (fold ?blk [-1, 0, 1] f) x y"
    proof (rule fold_opens[where st = ?blk and ?a0.0 = "y - ?ty" and ?f0.0 = f and x = x and y = y])
      show "noNewWalls g (?blk a g)" for a g by (rule noNew_blockRow)
      show "\<not> isWall (?blk (y - ?ty) g) x y" if "noNewWalls f g" for g using inner[OF that] .
      show "y - ?ty \<in> set [-1, 0, 1]" by (rule dy)
      show "noNewWalls f f" by (rule noNewWalls_refl)
    qed
    from noNewWalls_isWall[OF noNewWalls_trans[OF n2 n3] this] show ?thesis by (simp add: e)
  next
    case row
    have "nat x \<in> set [0..<width f]" using xr by simp
    then have xm: "nat x \<in> set [0..<width ?f1]" by (simp only: w1)
    have "\<not> isWall ?f2 x y"
    proof (rule fold_opens[where st = rowStep and ?a0.0 = "nat x" and ?f0.0 = f and x = x and y = y,
          OF noNew_rowStep _ xm n1])
      fix h assume h: "noNewWalls f h"
      have hh: "height h = height f" using h by (simp add: noNewWalls_def)
      let ?h1 = "setWall h (int (nat x)) 0 False"
      have h1: "noNewWalls f ?h1" using noNewWalls_trans[OF h noNewWalls_setWall] .
      show "\<not> isWall (rowStep (nat x) h) x y"
      proof (cases "y = int (height f) - 1")
        case True
        have "\<not> isWall (setWall ?h1 x y False) x y" using setWall_opens[OF h1 len ib] .
        then show ?thesis using True xr hh by (simp add: rowStep_def)
      next
        case False
        with row have y0: "y = 0" by simp
        have "\<not> isWall (setWall h x y False) x y" using setWall_opens[OF h len ib] .
        then have "\<not> isWall ?h1 x y" using y0 xr by simp
        from noNewWalls_isWall[OF noNewWalls_setWall this] show ?thesis
          by (simp add: rowStep_def)
      qed
    qed
    from noNewWalls_isWall[OF n3 this] show ?thesis by (simp add: e)
  next
    case col
    have "nat y \<in> set [0..<height f]" using yr by simp
    then have ym: "nat y \<in> set [0..<height ?f2]" by (simp only: w2)
    have "\<not> isWall ?f3 x y"
    proof (rule fold_opens[where st = colStep and ?a0.0 = "nat y" and ?f0.0 = f and x = x and y = y,
          OF noNew_colStep _ ym n12])
      fix h assume h: "noNewWalls f h"
      have hh: "width h = width f" using h by (simp add: noNewWalls_def)
      let ?h1 = "setWall h 0 (int (nat y)) False"
      have h1: "noNewWalls f ?h1" using noNewWalls_trans[OF h noNewWalls_setWall] .
      show "\<not> isWall (colStep (nat y) h) x y"
      proof (cases "x = int (width f) - 1")
        case True
        have "\<not> isWall (setWall ?h1 x y False) x y" using setWall_opens[OF h1 len ib] .
        then show ?thesis using True yr hh by (simp add: colStep_def)
      next
        case False
        with col have x0: "x = 0" by simp
        have "\<not> isWall (setWall h x y False) x y" using setWall_opens[OF h len ib] .
        then have "\<not> isWall ?h1 x y" using x0 yr by simp
        from noNewWalls_isWall[OF noNewWalls_setWall this] show ?thesis
          by (simp add: colStep_def)
      qed
    qed
    then show ?thesis by (simp add: e)
  qed
qed

lemma ensure_cellsOpen:
  assumes "length (cost f) = width f * height f"
  shows "cellsOpen (ensureBaseAndEdgeOpen f)"
proof -
  have g: "width (ensureBaseAndEdgeOpen f) = width f" "height (ensureBaseAndEdgeOpen f) = height f"
    using ensure_noNew[of f] by (simp_all add: noNewWalls_def)
  show ?thesis
    unfolding cellsOpen_def g
  proof (intro allI impI)
    fix x y
    assume a: "inBounds (ensureBaseAndEdgeOpen f) x y \<and>
        (x = 0 \<or> y = 0 \<or> x = int (width f) - 1 \<or> y = int (height f) - 1 \<or>
         (\<bar>x - int (width f div 2)\<bar> \<le> 1 \<and> \<bar>y - int (height f div 2)\<bar> \<le> 1))"
    then have ib: "inBounds f x y" using noNewWalls_inBounds[OF ensure_noNew] by simp
    from ensure_opens[OF assms ib] a show "\<not> isWall (ensureBaseAndEdgeOpen f) x y" by blast
  qed
qed

text \<open>
  A field as a terrain application leaves it: regenerated towards the centre cell, from
  a grid whose border cells and 3-by-3 block around the centre were already open.
\<close>

definition terrainOk :: "FlowField \<Rightarrow> bool" where
  "terrainOk F =
     (targetX F = int (width F div 2) \<and> targetY F = int (height F div 2) \<and> cellsOpen F \<and>
      (\<exists>f1. cellsOpen f1 \<and> F = generate f1 (int (width f1 div 2)) (int (height f1 div 2))))"

lemma cellsOpen_cong:
  assumes "width g = width f" "height g = height f" "cost g = cost f"
  shows "cellsOpen g = cellsOpen f"
  using grid_cong(1,2)[OF assms] assms by (simp add: cellsOpen_def)

lemma terrainOk_generate:
  assumes "cellsOpen f1"
  shows "terrainOk (generate f1 (int (width f1 div 2)) (int (height f1 div 2)))"
proof -
  let ?F = "generate f1 (int (width f1 div 2)) (int (height f1 div 2))"
  have "cellsOpen ?F" using assms cellsOpen_cong[of ?F f1] by simp
  then show ?thesis unfolding terrainOk_def using assms by auto
qed

lemma openAndGenerate_ok:
  assumes "length (cost f) = width f * height f"
  shows "terrainOk (openAndGenerate f)"
  unfolding openAndGenerate_def Let_def
  by (rule terrainOk_generate) (rule ensure_cellsOpen[OF assms])

lemma fillCost_len: "length (cost f) = width f * height f \<Longrightarrow>
    length (cost (fillCost f v)) = width (fillCost f v) * height (fillCost f v)"
  by (simp add: fillCost_def)

lemma cellsOpen_new: "cellsOpen (newFlowField w h)"
  by (auto simp: cellsOpen_def isWall_def newFlowField_def clear_def Let_def)

lemma rebuildSwarm_field [simp]: "field (rebuildSwarm s L rnd) = field s"
  by (simp add: rebuildSwarm_def Let_def)

lemma wf_openAndGenerate: "wf_field f \<Longrightarrow> wf_field (openAndGenerate f)"
proof -
  assume wf: "wf_field f"
  have n: "noNewWalls f (ensureBaseAndEdgeOpen f)" by (rule ensure_noNew)
  have g: "\<And>h. noNewWalls f h \<Longrightarrow> integration h = integration f \<and> direction h = direction f
      \<and> queue h = queue f \<Longrightarrow> wf_field h"
    using wf by (simp add: noNewWalls_def wf_field_def)
  have keep: "integration (setWall h x y b) = integration h \<and> direction (setWall h x y b) = direction h \<and>
      queue (setWall h x y b) = queue h" for h x y b
    by (simp add: setWall_def Let_def)
  have k1: "integration (fold st as h) = integration h \<and> direction (fold st as h) = direction h \<and>
      queue (fold st as h) = queue h"
    if "\<And>a h. integration (st a h) = integration h \<and> direction (st a h) = direction h \<and>
      queue (st a h) = queue h" for st :: "'a \<Rightarrow> FlowField \<Rightarrow> FlowField" and as h
    using that by (induction as arbitrary: h) simp_all
  have b: "integration (blockStep tx ty dy dx h) = integration h \<and> direction (blockStep tx ty dy dx h) = direction h \<and>
      queue (blockStep tx ty dy dx h) = queue h" for tx ty dy dx h
    by (simp add: blockStep_def Let_def keep)
  have r: "integration (rowStep a h) = integration h \<and> direction (rowStep a h) = direction h \<and>
      queue (rowStep a h) = queue h" for a h
    by (simp add: rowStep_def keep)
  have c: "integration (colStep a h) = integration h \<and> direction (colStep a h) = direction h \<and>
      queue (colStep a h) = queue h" for a h
    by (simp add: colStep_def keep)
  have "integration (ensureBaseAndEdgeOpen f) = integration f \<and>
     direction (ensureBaseAndEdgeOpen f) = direction f \<and> queue (ensureBaseAndEdgeOpen f) = queue f"
    unfolding ensure_alt Let_def
    by (simp only: k1[of colStep, OF c] k1[of rowStep, OF r]
        k1[of "\<lambda>dy. fold (blockStep tx ty dy) ds" for tx ty ds, OF k1[of "blockStep tx ty dy" for tx ty dy, OF b]])
  from g[OF n this] have "wf_field (ensureBaseAndEdgeOpen f)" .
  then show ?thesis unfolding openAndGenerate_def Let_def by (rule wf_generate)
qed

lemma wf_fillCost: "wf_field f \<Longrightarrow> wf_field (fillCost f v)"
  by (simp add: wf_field_def fillCost_def)

lemma terrain_events_ok:
  assumes "wf_field (field s)"
  shows "terrainOk (field (applyPilot s False)) \<and>
     terrainOk (field (pilotResolved s (pilotRequestId s) gridCost)) \<and>
     terrainOk (field (pilotRejected s (pilotRequestId s))) \<and>
     terrainOk (field (setGridSize s L newSize rnd))"
proof (intro conjI)
  from assms have len: "length (cost (field s)) = width (field s) * height (field s)"
    by (simp add: wf_field_def)
  show "terrainOk (field (applyPilot s False))"
    using openAndGenerate_ok[OF fillCost_len[OF len]] by (simp add: applyPilot_def Let_def)
  show "terrainOk (field (pilotRejected s (pilotRequestId s)))"
    using openAndGenerate_ok[OF fillCost_len[OF len]] by (simp add: pilotRejected_def)
  show "terrainOk (field (pilotResolved s (pilotRequestId s) gridCost))"
  proof (cases "length gridCost = length (cost (field s))")
    case True
    then have "length (cost ((field s)\<lparr>cost := gridCost\<rparr>)) =
        width ((field s)\<lparr>cost := gridCost\<rparr>) * height ((field s)\<lparr>cost := gridCost\<rparr>)"
      using len by simp
    from openAndGenerate_ok[OF this] True show ?thesis by (simp add: pilotResolved_def Let_def)
  next
    case False
    with openAndGenerate_ok[OF fillCost_len[OF len]] show ?thesis
      by (simp add: pilotResolved_def Let_def)
  qed
  show "terrainOk (field (setGridSize s L newSize rnd))"
  proof -
    define size where "size = nat (max 24 (min 128 \<lfloor>newSize\<rfloor>))"
    define F where "F = rebuildField (newFlowField size size)"
    have ok: "terrainOk F"
      unfolding F_def rebuildField_def
      using terrainOk_generate[OF cellsOpen_new[of size size]]
      by (simp add: newFlowField_def clear_def Let_def)
    have "wf_field F" unfolding F_def rebuildField_def by (rule wf_generate[OF wf_newFlowField])
    then have lenF: "length (cost F) = width F * height F" by (simp add: wf_field_def)
    have "field (setGridSize s L newSize rnd) =
        (if pilotPresent s then F else openAndGenerate (fillCost F 0))"
      by (simp add: setGridSize_def Let_def applyPilot_def size_def F_def)
    with ok openAndGenerate_ok[OF fillCost_len[OF lenF]] show ?thesis by simp
  qed
qed

text \<open>
  The states the controller can be in. Everything that is not listed by name (the
  ticker with \<open>updateSwarm\<close>, \<open>startWave\<close>, \<open>setEntityCount\<close>, the brush ref) writes
  neither \<open>field\<close> nor any array or coordinate in it, and is covered by the last rule.
\<close>

inductive reachable :: "Canvas \<Rightarrow> bool" where
  r_init: "reachable (initCanvas gridSize count brush pilot L rnd)"
| r_edit: "reachable s \<Longrightarrow> reachable (editAtClient s L rect cX cY)"
| r_pilot: "reachable s \<Longrightarrow> reachable (setPilot s p)"
| r_resolved: "reachable s \<Longrightarrow> reachable (pilotResolved s reqId gridCost)"
| r_rejected: "reachable s \<Longrightarrow> reachable (pilotRejected s reqId)"
| r_resize: "reachable s \<Longrightarrow> reachable (setGridSize s L newSize rnd)"
| r_other: "reachable s \<Longrightarrow> field s' = field s \<Longrightarrow> reachable s'"

definition targetOpen :: "FlowField \<Rightarrow> bool" where
  "targetOpen F =
     (wf_field F \<and> targetX F = int (width F div 2) \<and> targetY F = int (height F div 2) \<and>
      \<not> isWall F (targetX F) (targetY F))"

lemma terrainOk_targetOpen:
  assumes "wf_field F" "terrainOk F"
  shows "targetOpen F"
proof -
  let ?x = "int (width F div 2)" and ?y = "int (height F div 2)"
  have "\<not> isWall F ?x ?y"
  proof (cases "inBounds F ?x ?y")
    case True
    with assms(2) show ?thesis unfolding terrainOk_def cellsOpen_def by simp
  next
    case False
    then have "width F = 0 \<or> height F = 0" by (auto simp: inBounds_def)
    then have "length (cost F) = 0" using assms(1) by (auto simp: wf_field_def)
    then show ?thesis by (simp add: isWall_def Let_def)
  qed
  then show ?thesis using assms by (simp add: targetOpen_def terrainOk_def)
qed

lemma targetOpen_edit:
  assumes "targetOpen (field s)"
  shows "targetOpen (field (editAtClient s L rect cX cY))"
proof (cases "editAtClient s L rect cX cY = s")
  case True
  then show ?thesis using assms by simp
next
  case False
  then obtain gx gy b where g: "inBounds (field s) gx gy"
      "\<not> (gx = targetX (field s) \<and> gy = targetY (field s))"
      "field (editAtClient s L rect cX cY) =
         generate (setWall (field s) gx gy b) (targetX (field s)) (targetY (field s))"
    by (auto simp: editAtClient_def Let_def split: prod.splits option.splits if_splits)
  let ?F = "field s"
  from assms have wf: "wf_field ?F" and t: "targetX ?F = int (width ?F div 2)"
      "targetY ?F = int (height ?F div 2)" and nw: "\<not> isWall ?F (targetX ?F) (targetY ?F)"
    unfolding targetOpen_def by blast+
  from g(1) have "0 < width ?F" "0 < height ?F" by (auto simp: inBounds_def)
  then have tb: "inBounds ?F (targetX ?F) (targetY ?F)" by (simp add: t inBounds_def)
  have "isWall (setWall ?F gx gy b) (targetX ?F) (targetY ?F) = isWall ?F (targetX ?F) (targetY ?F)"
    using isWall_setWall_other[OF g(1) tb] g(2) by auto
  moreover have "isWall (generate (setWall ?F gx gy b) (targetX ?F) (targetY ?F)) = isWall (setWall ?F gx gy b)"
    by (rule grid_cong) simp_all
  ultimately have "\<not> isWall (field (editAtClient s L rect cX cY)) (targetX ?F) (targetY ?F)"
    using nw g(3) by simp
  moreover have "wf_field (field (editAtClient s L rect cX cY))"
    unfolding g(3) by (rule wf_generate[OF wf_setWall[OF wf]])
  ultimately show ?thesis using t by (simp add: targetOpen_def g(3))
qed

lemma targetOpen_rebuildNew: "targetOpen (rebuildField (newFlowField n n))"
proof -
  have wf: "wf_field (rebuildField (newFlowField n n))"
    unfolding rebuildField_def by (rule wf_generate[OF wf_newFlowField])
  have "terrainOk (rebuildField (newFlowField n n))"
    unfolding rebuildField_def by (rule terrainOk_generate[OF cellsOpen_new])
  from terrainOk_targetOpen[OF wf this] show ?thesis .
qed

lemma targetOpen_applyPilot:
  assumes "targetOpen (field s)"
  shows "targetOpen (field (applyPilot s p))"
proof (cases p)
  case True
  then show ?thesis using assms by (simp add: applyPilot_def Let_def)
next
  case False
  from assms have wf: "wf_field (field s)" by (simp add: targetOpen_def)
  have "terrainOk (field (applyPilot s False))"
    using terrain_events_ok[OF wf] by simp
  moreover have "wf_field (field (applyPilot s False))"
    by (simp add: applyPilot_def Let_def wf_openAndGenerate[OF wf_fillCost[OF wf]])
  ultimately show ?thesis using False terrainOk_targetOpen by simp
qed

lemma targetOpen_resolved:
  assumes "targetOpen (field s)"
  shows "targetOpen (field (pilotResolved s reqId gridCost))"
proof (cases "reqId = pilotRequestId s")
  case False
  then show ?thesis using assms by (simp add: pilotResolved_def)
next
  case True
  from assms have wf: "wf_field (field s)" by (simp add: targetOpen_def)
  have ok: "terrainOk (field (pilotResolved s reqId gridCost))"
    using terrain_events_ok[OF wf] True by simp
  have "wf_field (if length gridCost = length (cost (field s))
                  then (field s)\<lparr>cost := gridCost\<rparr> else fillCost (field s) 0)"
    using wf wf_fillCost[OF wf] by (simp add: wf_field_def)
  from wf_openAndGenerate[OF this] have "wf_field (field (pilotResolved s reqId gridCost))"
    using True by (simp add: pilotResolved_def Let_def)
  from terrainOk_targetOpen[OF this ok] show ?thesis .
qed

lemma targetOpen_rejected:
  assumes "targetOpen (field s)"
  shows "targetOpen (field (pilotRejected s reqId))"
proof (cases "reqId = pilotRequestId s")
  case False
  then show ?thesis using assms by (simp add: pilotRejected_def)
next
  case True
  from assms have wf: "wf_field (field s)" by (simp add: targetOpen_def)
  have ok: "terrainOk (field (pilotRejected s reqId))"
    using terrain_events_ok[OF wf] True by simp
  have "wf_field (field (pilotRejected s reqId))"
    using True by (simp add: pilotRejected_def wf_openAndGenerate[OF wf_fillCost[OF wf]])
  from terrainOk_targetOpen[OF this ok] show ?thesis .
qed

lemma targetOpen_resize: "targetOpen (field (setGridSize s L newSize rnd))"
proof -
  define size where "size = nat (max 24 (min 128 \<lfloor>newSize\<rfloor>))"
  define s1 where "s1 = s\<lparr>field := rebuildField (newFlowField size size), baseCost := None\<rparr>"
  have "targetOpen (field s1)" by (simp add: s1_def targetOpen_rebuildNew)
  from targetOpen_applyPilot[OF this, of "pilotPresent s1"]
  show ?thesis by (simp add: setGridSize_def Let_def size_def s1_def)
qed

lemma targetOpen_init: "targetOpen (field (initCanvas gridSize count brush pilot L rnd))"
proof -
  define s0 where "s0 = \<lparr>field = rebuildField (newFlowField gridSize gridSize), baseCost = None,
                pilotRequestId = 0, baseHpMax = 100, baseHp = 100, gold = 0, wave = 0,
                waveActive = False, waveEndsAt = 0, waveDurationMs = 35000, fireCooldown = 0,
                brushMode = brush, pilotPresent = pilot, entityCount = count, entities = 0,
                swarm = \<lparr>posX = [], posY = [], velX = [], velY = [], hp = []\<rparr>\<rparr>"
  have "targetOpen (field (rebuildSwarm s0 L rnd))" by (simp add: s0_def targetOpen_rebuildNew)
  from targetOpen_applyPilot[OF this, of pilot]
  show ?thesis by (simp add: initCanvas_def Let_def s0_def)
qed

lemma reachable_targetOpen: "reachable s \<Longrightarrow> targetOpen (field s)"
proof (induction rule: reachable.induct)
  case (r_init gridSize count brush pilot L rnd)
  show ?case by (rule targetOpen_init)
next
  case (r_edit s L rect cX cY)
  then show ?case by (simp add: targetOpen_edit)
next
  case (r_pilot s p)
  from targetOpen_applyPilot[of "s\<lparr>pilotPresent := p\<rparr>" p] r_pilot.IH
  show ?case by (simp add: setPilot_def)
next
  case (r_resolved s reqId gridCost)
  then show ?case by (simp add: targetOpen_resolved)
next
  case (r_rejected s reqId)
  then show ?case by (simp add: targetOpen_rejected)
next
  case (r_resize s L newSize rnd)
  show ?case by (rule targetOpen_resize)
next
  case (r_other s s')
  then show ?case by simp
qed


section \<open>Claims about the flow field\<close>

text \<open>
  C1. After \<open>generate f tx ty\<close> on a well-formed field with an in-bounds, non-wall
  target, take a walkable cell \<open>i\<close> whose integration value is finite. If the value is
  not zero, the direction stored for \<open>i\<close> is one of the eight compass indices, the
  neighbour it points to is inside the grid and has a strictly smaller integration value.
  Stepping along stored directions from \<open>i\<close> reaches the target cell after at most
  \<open>integration[i]\<close> steps, each of which strictly decreases the integration value; at
  the target the integration value is zero and the direction is \<open>FLOW_DIR_NONE\<close>, so
  the walk stops there. The cells with a finite value are the reachable ones: on a grid of
  at most 65535 cells (the controller's grids have at most 128 * 128), every cell reached
  from \<open>i\<close> by cardinal steps over walkable cells, \<open>walkN4\<close>, has a finite value
  too; with \<open>i\<close> the target this is every cell joined to the target.
\<close>

theorem C1_descent:
  assumes "wf_field f" and "inBounds f tx ty" and "\<not> isWall f tx ty"
    and "i < width f * height f" and "cost f ! i \<noteq> 255"
    and "integration (generate f tx ty) ! i \<noteq> INF_DIST"
  shows "let g = generate f tx ty; t = nat (idx f tx ty) in
     (integration g ! i \<noteq> 0 \<longrightarrow>
        direction g ! i < length N8 \<and> nbrIn g i (N8 ! (direction g ! i)) \<and>
        followDir g i = nbrIdx g i (N8 ! (direction g ! i)) \<and>
        integration g ! followDir g i < integration g ! i) \<and>
     (\<exists>m \<le> integration g ! i.
        (followDir g ^^ m) i = t \<and> integration g ! t = 0 \<and> direction g ! t = FLOW_DIR_NONE \<and>
        (\<forall>j < m. integration g ! ((followDir g ^^ Suc j) i) < integration g ! ((followDir g ^^ j) i))) \<and>
     (width f * height f \<le> 65535 \<longrightarrow>
        (\<forall>ds c. walkN4 f i ds = Some c \<longrightarrow> integration g ! c \<noteq> INF_DIST))"
proof -
  let ?g = "generate f tx ty"
  have nx: "nbrIdx ?g = nbrIdx f" "nbrIn ?g = nbrIn f" by (rule grid_cong; simp)+
  note inv = generate_flood[OF assms(1,2,3)]
  then have t: "nat (idx f tx ty) < width f * height f" "integration ?g ! nat (idx f tx ty) = 0"
    by (simp_all add: flood_inv_def)
  have dt: "direction ?g ! nat (idx f tx ty) = FLOW_DIR_NONE"
    using generate_direction[OF assms(1,2,3) t(1)] t(2) by (simp add: Let_def)
  have a: "integration ?g ! i \<noteq> 0 \<longrightarrow>
        direction ?g ! i < length N8 \<and> nbrIn ?g i (N8 ! (direction ?g ! i)) \<and>
        followDir ?g i = nbrIdx ?g i (N8 ! (direction ?g ! i)) \<and>
        integration ?g ! followDir ?g i < integration ?g ! i"
    using generate_step(1,2)[OF assms] followDir_generate(1,4)[OF assms] by (simp add: nx)
  from descent_path[OF assms]
  obtain m where m: "m \<le> integration ?g ! i" "(followDir ?g ^^ m) i = nat (idx f tx ty)"
    "\<forall>j < m. integration ?g ! ((followDir ?g ^^ Suc j) i) < integration ?g ! ((followDir ?g ^^ j) i)"
    by blast
  have b: "\<exists>m \<le> integration ?g ! i.
        (followDir ?g ^^ m) i = nat (idx f tx ty) \<and> integration ?g ! nat (idx f tx ty) = 0 \<and>
        direction ?g ! nat (idx f tx ty) = FLOW_DIR_NONE \<and>
        (\<forall>j < m. integration ?g ! ((followDir ?g ^^ Suc j) i) < integration ?g ! ((followDir ?g ^^ j) i))"
    using m t(2) dt by (intro exI[of _ m]) simp
  have c: "width f * height f \<le> 65535 \<longrightarrow>
        (\<forall>ds c. walkN4 f i ds = Some c \<longrightarrow> integration ?g ! c \<noteq> INF_DIST)"
    using generate_complete[OF assms(1,2,3) _ assms(4,6)] by blast
  show ?thesis unfolding Let_def using a b c by (intro conjI)
qed

theorem C1_descent_witness:
  "wf_field grid22 \<and> inBounds grid22 0 0 \<and> \<not> isWall grid22 0 0 \<and>
   (3::nat) < width grid22 * height grid22 \<and> cost grid22 ! 3 \<noteq> 255 \<and>
   integration (generate grid22 0 0) ! 3 \<noteq> INF_DIST \<and>
   integration (generate grid22 0 0) ! 3 \<noteq> 0 \<and>
   direction (generate grid22 0 0) ! 3 < length N8 \<and>
   integration (generate grid22 0 0) ! followDir (generate grid22 0 0) 3
     < integration (generate grid22 0 0) ! 3 \<and>
   (\<exists>m \<le> integration (generate grid22 0 0) ! 3.
      (followDir (generate grid22 0 0) ^^ m) 3 = nat (idx grid22 0 0) \<and>
      integration (generate grid22 0 0) ! nat (idx grid22 0 0) = 0) \<and>
   width grid22 * height grid22 \<le> 65535 \<and>
   walkN4 grid22 3 [(-1, 0), (0, -1)] = Some 0 \<and>
   integration (generate grid22 0 0) ! 0 \<noteq> INF_DIST"
proof -
  have fin: "integration (generate grid22 0 0) ! 3 \<noteq> INF_DIST"
    and nz: "integration (generate grid22 0 0) ! 3 \<noteq> 0"
    by (simp_all add: grid22_integration INF_DIST_def)
  have sm: "width grid22 * height grid22 \<le> 65535" by (simp add: grid22_def)
  have wk: "walkN4 grid22 3 [(-1, 0), (0, -1)] = Some 0"
    by (simp add: grid22_def N4_def nbrIn_def nbrIdx_def inBounds_def)
  note c1 = C1_descent[OF grid22_wf grid22_target(1,2) grid22_cell3 fin, unfolded Let_def]
  from c1 nz have a: "direction (generate grid22 0 0) ! 3 < length N8"
    "integration (generate grid22 0 0) ! followDir (generate grid22 0 0) 3
       < integration (generate grid22 0 0) ! 3" by blast+
  from c1 have b: "\<exists>m \<le> integration (generate grid22 0 0) ! 3.
      (followDir (generate grid22 0 0) ^^ m) 3 = nat (idx grid22 0 0) \<and>
      integration (generate grid22 0 0) ! nat (idx grid22 0 0) = 0" by blast
  from c1 sm wk have c: "integration (generate grid22 0 0) ! 0 \<noteq> INF_DIST" by blast
  show ?thesis
    using grid22_wf grid22_target(1,2) grid22_cell3 fin nz a b sm wk c by (intro conjI)
qed

text \<open>
  C5. After \<open>generate\<close> (for any target), a cell whose stored direction is diagonal
  (index 1, 3, 5 or 7) has both corner cells of that diagonal, \<open>(x + dx, y)\<close> and
  \<open>(x, y + dy)\<close>, inside the grid and not walls. In the scan over the eight
  neighbours, a diagonal neighbour one of whose corner cells is out of bounds or a wall
  leaves \<open>(best, bestDir)\<close> unchanged: it takes no part in the selection.
\<close>

theorem C5_no_corner_cutting:
  "(wf_field f \<and> i < width f * height f \<and> direction (generate f tx ty) ! i \<in> {1, 3, 5, 7} \<longrightarrow>
      cornersOpen (generate f tx ty) (int (i mod width f)) (int (i div width f))
        (fst (N8 ! (direction (generate f tx ty) ! i))) (snd (N8 ! (direction (generate f tx ty) ! i))))
   \<and> (fst (N8 ! dir) \<noteq> 0 \<and> snd (N8 ! dir) \<noteq> 0 \<and> \<not> cornersOpen f x y (fst (N8 ! dir)) (snd (N8 ! dir)) \<longrightarrow>
      pickDir f integ x y dir s = s)"
proof (intro conjI impI)
  assume a: "wf_field f \<and> i < width f * height f \<and> direction (generate f tx ty) ! i \<in> {1, 3, 5, 7}"
  let ?g = "generate f tx ty"
  let ?x = "int (i mod width f)" and ?y = "int (i div width f)"
  have co: "cornersOpen ?g = cornersOpen f" by (rule grid_cong) simp_all
  from a have wf: "wf_field f" and i: "i < width f * height f"
    and d: "direction ?g ! i \<in> {1, 3, 5, 7}" by auto
  from d have dn: "direction ?g ! i \<noteq> FLOW_DIR_NONE" by (auto simp: FLOW_DIR_NONE_def)
  have valid: "inBounds f tx ty \<and> \<not> isWall f tx ty"
    using generate_direction_invalid(1)[OF wf _ i, of tx ty] dn by blast
  then have ib: "inBounds f tx ty" and nw: "\<not> isWall f tx ty" by auto
  obtain best bestDir where r: "fold (pickDir f (integration ?g) ?x ?y)
      [0..<length N8] (integration ?g ! i, FLOW_DIR_NONE) = (best, bestDir)" by fastforce
  have "direction ?g ! i = bestDir"
    using generate_direction[OF wf ib nw i] dn r by (simp add: Let_def split: if_splits)
  with scan_chosen[OF r] dn have "dirOk f (integration ?g) ?x ?y (direction ?g ! i)" by simp
  from diagonal_corners[OF this d]
  show "cornersOpen ?g ?x ?y (fst (N8 ! (direction ?g ! i))) (snd (N8 ! (direction ?g ! i)))"
    by (simp add: co)
next
  assume "fst (N8 ! dir) \<noteq> 0 \<and> snd (N8 ! dir) \<noteq> 0 \<and> \<not> cornersOpen f x y (fst (N8 ! dir)) (snd (N8 ! dir))"
  then have "\<not> canUseDiagonal f x y (fst (N8 ! dir)) (snd (N8 ! dir))"
    by (auto simp: canUseDiagonal_def cornersOpen_def Let_def)
  then show "pickDir f integ x y dir s = s"
    by (cases s) (simp add: pickDir_def Let_def)
qed

theorem C5_no_corner_cutting_witness:
  "wf_field grid22 \<and> (3::nat) < width grid22 * height grid22 \<and>
   direction (generate grid22 0 0) ! 3 \<in> {1, 3, 5, 7} \<and>
   cornersOpen (generate grid22 0 0) (int (3 mod width grid22)) (int (3 div width grid22))
     (fst (N8 ! (direction (generate grid22 0 0) ! 3))) (snd (N8 ! (direction (generate grid22 0 0) ! 3))) \<and>
   fst (N8 ! 5) \<noteq> 0 \<and> snd (N8 ! 5) \<noteq> 0 \<and>
   \<not> cornersOpen (setWall grid22 1 0 True) 1 1 (fst (N8 ! 5)) (snd (N8 ! 5)) \<and>
   pickDir (setWall grid22 1 0 True) [0, 65535, 1, 2] 1 1 5 (2, FLOW_DIR_NONE) = (2, FLOW_DIR_NONE)"
proof -
  have d: "direction (generate grid22 0 0) ! 3 \<in> {1, 3, 5, 7}"
    by (simp add: grid22_direction3)
  have n: "fst (N8 ! 5) \<noteq> 0" "snd (N8 ! 5) \<noteq> 0"
    by (simp_all add: N8_def)
  have w: "\<not> cornersOpen (setWall grid22 1 0 True) 1 1 (fst (N8 ! 5)) (snd (N8 ! 5))"
    by (simp add: cornersOpen_def setWall_def grid22_def N8_def idx_def isWall_def inBounds_def)
  note c5 = C5_no_corner_cutting[where f = grid22 and i = 3 and tx = 0 and ty = 0]
  note c5' = C5_no_corner_cutting[where f = "setWall grid22 1 0 True" and dir = 5 and x = 1
      and y = 1 and integ = "[0, 65535, 1, 2]" and s = "(2, FLOW_DIR_NONE)"]
  from c5 grid22_wf grid22_cell3(1) d
  have a: "cornersOpen (generate grid22 0 0) (int (3 mod width grid22)) (int (3 div width grid22))
     (fst (N8 ! (direction (generate grid22 0 0) ! 3))) (snd (N8 ! (direction (generate grid22 0 0) ! 3)))"
    by blast
  from c5' n w
  have b: "pickDir (setWall grid22 1 0 True) [0, 65535, 1, 2] 1 1 5 (2, FLOW_DIR_NONE) = (2, FLOW_DIR_NONE)"
    by blast
  show ?thesis using grid22_wf grid22_cell3(1) d a n w b by (intro conjI)
qed

text \<open>
  C6. When the target is out of bounds or is a wall cell, \<open>generate\<close> returns (the
  model has no error branch on this path, as the source has no \<open>throw\<close>) with every
  direction \<open>FLOW_DIR_NONE\<close> and every integration value the sentinel \<open>0xffff\<close>;
  the cost array and the queue are untouched.
\<close>

theorem C6_invalid_target:
  assumes "wf_field f" and "\<not> inBounds f tx ty \<or> isWall f tx ty"
  shows "direction (generate f tx ty) = replicate (width f * height f) FLOW_DIR_NONE \<and>
     integration (generate f tx ty) = replicate (width f * height f) INF_DIST \<and>
     cost (generate f tx ty) = cost f \<and> queue (generate f tx ty) = queue f"
  using assms by (simp add: generate_invalid cleared_def wf_field_def)

theorem C6_invalid_target_witness:
  "wf_field grid22 \<and> \<not> inBounds grid22 5 5 \<and>
   direction (generate grid22 5 5) = replicate (width grid22 * height grid22) FLOW_DIR_NONE \<and>
   integration (generate grid22 5 5) = replicate (width grid22 * height grid22) INF_DIST \<and>
   wf_field (setWall grid22 0 0 True) \<and> isWall (setWall grid22 0 0 True) 0 0 \<and>
   direction (generate (setWall grid22 0 0 True) 0 0) = replicate 4 FLOW_DIR_NONE \<and>
   integration (generate (setWall grid22 0 0 True) 0 0) = replicate 4 INF_DIST"
proof -
  have o: "\<not> inBounds grid22 5 5" by (simp add: inBounds_def grid22_def)
  have w: "wf_field (setWall grid22 0 0 True)" "isWall (setWall grid22 0 0 True) 0 0"
    "width (setWall grid22 0 0 True) * height (setWall grid22 0 0 True) = 4"
    by (simp_all add: wf_field_def setWall_def grid22_def idx_def isWall_def)
  from C6_invalid_target[OF grid22_wf, of 5 5] o
  have a: "direction (generate grid22 5 5) = replicate (width grid22 * height grid22) FLOW_DIR_NONE"
    "integration (generate grid22 5 5) = replicate (width grid22 * height grid22) INF_DIST"
    by blast+
  from C6_invalid_target[OF w(1), of 0 0] w(2)
  have b: "direction (generate (setWall grid22 0 0 True) 0 0) = replicate 4 FLOW_DIR_NONE"
    "integration (generate (setWall grid22 0 0 True) 0 0) = replicate 4 INF_DIST"
    unfolding w(3) by blast+
  show ?thesis using grid22_wf o a w(1,2) b by (intro conjI)
qed

section \<open>Claims about the controller\<close>

text \<open>Inputs for the examples: a 20-by-20 canvas of 10-pixel cells over the 2-by-2 grid.\<close>

definition layout20 :: Layout where
  "layout20 = \<lparr>cellPx = 10, offsetX = 0, offsetY = 0, rendererW = 20, rendererH = 20\<rparr>"

definition rect20 :: Rect where
  "rect20 = \<lparr>rectLeft = 0, rectTop = 0, rectWidth = 20, rectHeight = 20\<rparr>"

definition noRandom :: "nat \<Rightarrow> real \<times> real" where
  "noRandom i = (0, 0)"

definition demoCanvas :: Canvas where
  "demoCanvas = \<lparr>field = rebuildField grid22, baseCost = None, pilotRequestId = 1,
     baseHpMax = 100, baseHp = 40, gold = 0, wave = 1, waveActive = True, waveEndsAt = 35000,
     waveDurationMs = 35000, fireCooldown = 0.05, brushMode = WALL, pilotPresent = False,
     entityCount = 1, entities = 1,
     swarm = \<lparr>posX = [5], posY = [5], velX = [0], velY = [0], hp = [44]\<rparr>\<rparr>"

lemma demo_field:
  "wf_field (field demoCanvas)" "width (field demoCanvas) = 2" "height (field demoCanvas) = 2"
  "targetX (field demoCanvas) = 1" "targetY (field demoCanvas) = 1"
  using wf_generate[OF grid22_wf]
  by (simp_all add: demoCanvas_def rebuildField_def grid22_def)

lemma pointer20:
  "pointerCell layout20 rect20 15 5 = (Some 1, Some 0)"
  "pointerCell layout20 rect20 15 15 = (Some 1, Some 1)"
  by (simp_all add: pointerCell_def layout20_def rect20_def gridCoord_def Let_def)

text \<open>
  C8. Take a pointer position over an in-bounds cell that is not the target. While a
  wave is active and the brush is WALL: with no gold the edit returns the state as it
  was; with positive gold the cell becomes a wall and gold drops by exactly one. With
  the brush ERASE the cell is cleared and gold is unchanged, whatever the wave state and
  the gold. While no wave is active the edit is applied and gold is unchanged.
\<close>

theorem C8_wall_edit_cost:
  assumes "wf_field (field s)" and "pointerCell L rect cX cY = (Some gx, Some gy)"
    and "inBounds (field s) gx gy" and "\<not> (gx = targetX (field s) \<and> gy = targetY (field s))"
  shows "(waveActive s \<and> brushMode s = WALL \<and> gold s \<le> 0 \<longrightarrow>
            editAtClient s L rect cX cY = s) \<and>
         (waveActive s \<and> brushMode s = WALL \<and> 0 < gold s \<longrightarrow>
            isWall (field (editAtClient s L rect cX cY)) gx gy \<and>
            gold (editAtClient s L rect cX cY) = gold s - 1) \<and>
         (brushMode s = ERASE \<longrightarrow>
            \<not> isWall (field (editAtClient s L rect cX cY)) gx gy \<and>
            gold (editAtClient s L rect cX cY) = gold s) \<and>
         (\<not> waveActive s \<longrightarrow>
            (isWall (field (editAtClient s L rect cX cY)) gx gy \<longleftrightarrow> brushMode s = WALL) \<and>
            gold (editAtClient s L rect cX cY) = gold s)"
proof -
  from assms(1) have len: "length (cost (field s)) = width (field s) * height (field s)"
    by (simp add: wf_field_def)
  have w: "isWall (generate (setWall (field s) gx gy b) tx ty) gx gy = b" for b tx ty
  proof -
    have "isWall (generate (setWall (field s) gx gy b) tx ty) = isWall (setWall (field s) gx gy b)"
      by (rule grid_cong) simp_all
    then show ?thesis using isWall_setWall_same[OF assms(3) len] by simp
  qed
  have e: "brushMode s = WALL \<or> brushMode s = ERASE" by (cases "brushMode s") auto
  show ?thesis
    using assms(2,3,4) w e by (auto simp: editAtClient_def Let_def)
qed

theorem C8_wall_edit_cost_witness:
  "wf_field (field demoCanvas) \<and> pointerCell layout20 rect20 15 5 = (Some 1, Some 0) \<and>
   inBounds (field demoCanvas) 1 0 \<and>
   \<not> (1 = targetX (field demoCanvas) \<and> 0 = targetY (field demoCanvas)) \<and>
   waveActive demoCanvas \<and> brushMode demoCanvas = WALL \<and> gold demoCanvas \<le> 0 \<and>
   editAtClient demoCanvas layout20 rect20 15 5 = demoCanvas \<and>
   0 < gold (demoCanvas\<lparr>gold := 2\<rparr>) \<and>
   isWall (field (editAtClient (demoCanvas\<lparr>gold := 2\<rparr>) layout20 rect20 15 5)) 1 0 \<and>
   gold (editAtClient (demoCanvas\<lparr>gold := 2\<rparr>) layout20 rect20 15 5) = 1 \<and>
   brushMode (demoCanvas\<lparr>brushMode := ERASE\<rparr>) = ERASE \<and>
   \<not> isWall (field (editAtClient (demoCanvas\<lparr>brushMode := ERASE\<rparr>) layout20 rect20 15 5)) 1 0 \<and>
   gold (editAtClient (demoCanvas\<lparr>brushMode := ERASE\<rparr>) layout20 rect20 15 5) = 0 \<and>
   \<not> waveActive (demoCanvas\<lparr>waveActive := False\<rparr>) \<and>
   isWall (field (editAtClient (demoCanvas\<lparr>waveActive := False\<rparr>) layout20 rect20 15 5)) 1 0 \<and>
   gold (editAtClient (demoCanvas\<lparr>waveActive := False\<rparr>) layout20 rect20 15 5) = 0"
proof -
  have ib: "inBounds (field demoCanvas) 1 0" by (simp add: inBounds_def demo_field)
  have nt: "\<not> (1 = targetX (field demoCanvas) \<and> 0 = targetY (field demoCanvas))"
    by (simp add: demo_field)
  have st: "waveActive demoCanvas" "brushMode demoCanvas = WALL" "gold demoCanvas = 0"
    by (simp_all add: demoCanvas_def)
  note a = C8_wall_edit_cost[of demoCanvas layout20 rect20 15 5 1 0, OF demo_field(1) pointer20(1) ib nt]
  note b = C8_wall_edit_cost[of "demoCanvas\<lparr>gold := 2\<rparr>" layout20 rect20 15 5 1 0]
  note c = C8_wall_edit_cost[of "demoCanvas\<lparr>brushMode := ERASE\<rparr>" layout20 rect20 15 5 1 0]
  note d = C8_wall_edit_cost[of "demoCanvas\<lparr>waveActive := False\<rparr>" layout20 rect20 15 5 1 0]
  have 1: "editAtClient demoCanvas layout20 rect20 15 5 = demoCanvas"
    using a st by simp
  have 2: "isWall (field (editAtClient (demoCanvas\<lparr>gold := 2\<rparr>) layout20 rect20 15 5)) 1 0"
    "gold (editAtClient (demoCanvas\<lparr>gold := 2\<rparr>) layout20 rect20 15 5) = 1"
    using b demo_field(1) pointer20(1) ib nt st by simp_all
  have 3: "\<not> isWall (field (editAtClient (demoCanvas\<lparr>brushMode := ERASE\<rparr>) layout20 rect20 15 5)) 1 0"
    "gold (editAtClient (demoCanvas\<lparr>brushMode := ERASE\<rparr>) layout20 rect20 15 5) = 0"
    using c demo_field(1) pointer20(1) ib nt st by simp_all
  have 4: "isWall (field (editAtClient (demoCanvas\<lparr>waveActive := False\<rparr>) layout20 rect20 15 5)) 1 0"
    "gold (editAtClient (demoCanvas\<lparr>waveActive := False\<rparr>) layout20 rect20 15 5) = 0"
    using d demo_field(1) pointer20(1) ib nt st by simp_all
  show ?thesis
    using demo_field(1) pointer20(1) ib nt st 1 2 3 4 by simp
qed

text \<open>
  C9. In every state the controller can reach (from \<open>init\<close>, by pointer edits, pilot
  changes, fetch results, grid resizes and everything that leaves the field alone) the
  target cell is the centre cell and is not a wall. A pointer edit over the target cell
  returns the state as it was.
\<close>

theorem C9_target_never_wall:
  "(reachable s \<longrightarrow>
      \<not> isWall (field s) (targetX (field s)) (targetY (field s)) \<and>
      targetX (field s) = int (width (field s) div 2) \<and>
      targetY (field s) = int (height (field s) div 2)) \<and>
   (pointerCell L rect cX cY = (Some (targetX (field s)), Some (targetY (field s))) \<longrightarrow>
      editAtClient s L rect cX cY = s)"
proof (intro conjI impI)
  assume "reachable s"
  from reachable_targetOpen[OF this]
  show "\<not> isWall (field s) (targetX (field s)) (targetY (field s))"
    and "targetX (field s) = int (width (field s) div 2)"
    and "targetY (field s) = int (height (field s) div 2)"
    unfolding targetOpen_def by blast+
next
  assume "pointerCell L rect cX cY = (Some (targetX (field s)), Some (targetY (field s)))"
  then show "editAtClient s L rect cX cY = s" by (simp add: editAtClient_def Let_def)
qed

theorem C9_target_never_wall_witness:
  "reachable (editAtClient (initCanvas 2 1 WALL False layout20 noRandom) layout20 rect20 15 5) \<and>
   \<not> isWall (field (editAtClient (initCanvas 2 1 WALL False layout20 noRandom) layout20 rect20 15 5))
       (targetX (field (editAtClient (initCanvas 2 1 WALL False layout20 noRandom) layout20 rect20 15 5)))
       (targetY (field (editAtClient (initCanvas 2 1 WALL False layout20 noRandom) layout20 rect20 15 5))) \<and>
   pointerCell layout20 rect20 15 15 =
     (Some (targetX (field demoCanvas)), Some (targetY (field demoCanvas))) \<and>
   editAtClient demoCanvas layout20 rect20 15 15 = demoCanvas"
proof -
  let ?s = "editAtClient (initCanvas 2 1 WALL False layout20 noRandom) layout20 rect20 15 5"
  have r: "reachable ?s" by (intro r_edit r_init)
  note a = C9_target_never_wall[where s = ?s]
  note b = C9_target_never_wall[where s = demoCanvas and L = layout20 and rect = rect20
      and cX = 15 and cY = 15]
  have p: "pointerCell layout20 rect20 15 15 =
     (Some (targetX (field demoCanvas)), Some (targetY (field demoCanvas)))"
    by (simp add: pointer20 demo_field)
  from a r have 1: "\<not> isWall (field ?s) (targetX (field ?s)) (targetY (field ?s))" by blast
  from b p have 2: "editAtClient demoCanvas layout20 rect20 15 15 = demoCanvas" by blast
  show ?thesis using r 1 p 2 by (intro conjI)
qed

text \<open>
  C10. Each terrain application (pilot cleared, fetched grid installed, fetch failed,
  grid resized) leaves a field that was regenerated towards the centre cell from a grid
  in which every border cell and every cell of the 3-by-3 block around the centre was
  already open; so these cells are not walls afterwards, whatever the fetched array
  holds.
\<close>

theorem C10_terrain_opens_base_and_edges:
  assumes "wf_field (field s)"
  shows "terrainOk (field (applyPilot s False)) \<and>
     terrainOk (field (pilotResolved s (pilotRequestId s) gridCost)) \<and>
     terrainOk (field (pilotRejected s (pilotRequestId s))) \<and>
     terrainOk (field (setGridSize s L newSize rnd))"
  using assms by (rule terrain_events_ok)

theorem C10_terrain_opens_base_and_edges_witness:
  "wf_field (field demoCanvas) \<and>
   terrainOk (field (applyPilot demoCanvas False)) \<and>
   terrainOk (field (pilotResolved demoCanvas (pilotRequestId demoCanvas) [255, 255, 255, 255])) \<and>
   terrainOk (field (pilotRejected demoCanvas (pilotRequestId demoCanvas))) \<and>
   terrainOk (field (setGridSize demoCanvas layout20 48 noRandom))"
  using C10_terrain_opens_base_and_edges[OF demo_field(1), of "[255, 255, 255, 255]" layout20 48 noRandom]
    demo_field(1) by simp

text \<open>
  C3 (what the code does). \<open>startWave\<close> has no test of \<open>waveActive\<close>: in every state,
  Active ones included, it increments the wave counter, resets base hp and the combat
  cooldown and rebuilds the swarm. The only guard is the start button, which is
  disabled by the last telemetry sample; while that sample still says Idle, a click
  reaches \<open>startWave\<close>. In the example the first click starts wave 1, the ticks before
  the next sample lower base hp and set the cooldown, and the second click starts
  wave 2 with base hp back at its maximum; had a sample been published in between, the
  second click would have changed nothing.
\<close>

theorem C3_start_wave_not_guarded:
  "(wave (startWave s L now rnd) = wave s + 1 \<and>
   baseHp (startWave s L now rnd) = baseHpMax s \<and>
   fireCooldown (startWave s L now rnd) = 0 \<and>
   waveActive (startWave s L now rnd) \<and>
   swarm (startWave s L now rnd) =
     swarm (rebuildSwarm (s\<lparr>wave := wave s + 1, waveActive := True, baseHp := baseHpMax s,
       fireCooldown := 0, waveEndsAt := now + waveDurationMs s\<rparr>) L rnd) \<and>
   canvas (clickStartWave \<lparr>canvas = s, perfWaveActive = False, waveToken = 1\<rparr> L now rnd) =
     startWave s L now rnd) \<and>
   (let a0 = \<lparr>canvas = initCanvas 2 1 WALL False layout20 noRandom, perfWaveActive = False,
                   waveToken = 0\<rparr>;
        a1 = clickStartWave a0 layout20 0 noRandom;
        a1' = a1\<lparr>canvas := (canvas a1)\<lparr>baseHp := 40, fireCooldown := 0.05\<rparr>\<rparr>;
        a2 = clickStartWave a1' layout20 100 noRandom
    in waveActive (canvas a1) \<and> wave (canvas a1) = 1 \<and> \<not> perfWaveActive a1' \<and>
       waveActive (canvas a1') \<and> baseHp (canvas a1') = 40 \<and>
       wave (canvas a2) = 2 \<and> baseHp (canvas a2) = 100 \<and> fireCooldown (canvas a2) = 0 \<and>
       waveEndsAt (canvas a2) = 35100 \<and>
       clickStartWave (onPerfSample a1') layout20 100 noRandom = onPerfSample a1')"
proof -
  have g: "wave (startWave s L now rnd) = wave s + 1 \<and>
   baseHp (startWave s L now rnd) = baseHpMax s \<and>
   fireCooldown (startWave s L now rnd) = 0 \<and>
   waveActive (startWave s L now rnd) \<and>
   swarm (startWave s L now rnd) =
     swarm (rebuildSwarm (s\<lparr>wave := wave s + 1, waveActive := True, baseHp := baseHpMax s,
       fireCooldown := 0, waveEndsAt := now + waveDurationMs s\<rparr>) L rnd) \<and>
   canvas (clickStartWave \<lparr>canvas = s, perfWaveActive = False, waveToken = 1\<rparr> L now rnd) =
     startWave s L now rnd"
    by (simp add: startWave_def rebuildSwarm_def clickStartWave_def Let_def)
  have e: "(let a0 = \<lparr>canvas = initCanvas 2 1 WALL False layout20 noRandom, perfWaveActive = False,
                   waveToken = 0\<rparr>;
        a1 = clickStartWave a0 layout20 0 noRandom;
        a1' = a1\<lparr>canvas := (canvas a1)\<lparr>baseHp := 40, fireCooldown := 0.05\<rparr>\<rparr>;
        a2 = clickStartWave a1' layout20 100 noRandom
    in waveActive (canvas a1) \<and> wave (canvas a1) = 1 \<and> \<not> perfWaveActive a1' \<and>
       waveActive (canvas a1') \<and> baseHp (canvas a1') = 40 \<and>
       wave (canvas a2) = 2 \<and> baseHp (canvas a2) = 100 \<and> fireCooldown (canvas a2) = 0 \<and>
       waveEndsAt (canvas a2) = 35100 \<and>
       clickStartWave (onPerfSample a1') layout20 100 noRandom = onPerfSample a1')"
    by (simp add: Let_def clickStartWave_def startWave_def rebuildSwarm_def initCanvas_def
        applyPilot_def onPerfSample_def)
  from g e show ?thesis by (rule conjI)
qed

section \<open>The swarm: integration, collision, spatial hash\<close>








































































section \<open>Claims about the swarm\<close>

text \<open>
  The arithmetic of the loop is over the reals here; the source computes it in double
  precision. The writes into the position and velocity arrays round to single precision
  (\<open>fround\<close>). The examples use values at which the double arithmetic is exact, or
  which differ from the claim by far more than its rounding error.
\<close>









end
